theory Spec2Isabelle
  imports Complex_Main "HOL-Library.Word"
begin

section \<open>The OpenAL output stream of AudioCommon/OpenALStream.cpp\<close>

text \<open>
  The development embeds \<^verbatim>\<open>OpenALStream::SoundLoop\<close>, \<^verbatim>\<open>CheckALError\<close> and the
  signalling half of \<^verbatim>\<open>OpenALStream::Stop\<close> and \<^verbatim>\<open>OpenALStream::Update\<close>.

  The audio device, the mixer, the time-stretch engine and the surround decoder are
  libraries outside the file. Every call the loop makes to them is written to a trace,
  in program order, and every value they hand back is read from an observation record
  (\<open>env\<close>) of the iteration, so that nothing is assumed about what they answer.

  \<^verbatim>\<open>float\<close> and \<^verbatim>\<open>double\<close> values are modelled as \<open>real\<close>. The only arithmetic the
  loop does on them is a division and a multiplication by \<open>2^15\<close>, exact in binary
  floating point, and comparisons with the literals \<^verbatim>\<open>0\<close>, \<^verbatim>\<open>0.10\<close> and \<^verbatim>\<open>10\<close>.
\<close>

subsection \<open>Data\<close>

type_synonym u32 = "32 word"
type_synonym u64 = "64 word"
type_synonym s16 = "16 word"

text \<open>The error codes \<^verbatim>\<open>CheckALError\<close> tells apart; anything else is \<open>AL_OTHER_ERROR\<close>.\<close>

datatype ALenum =
    AL_NO_ERROR
  | AL_INVALID_NAME
  | AL_INVALID_ENUM
  | AL_INVALID_VALUE
  | AL_INVALID_OPERATION
  | AL_OUT_OF_MEMORY
  | AL_OTHER_ERROR nat

datatype al_format =
    AL_FORMAT_51CHN32
  | AL_FORMAT_51CHN16
  | AL_FORMAT_STEREO_FLOAT32
  | AL_FORMAT_STEREO16

text \<open>The values \<^verbatim>\<open>alGetSourcei(uiSource, AL_SOURCE_STATE, &iState)\<close> can store.\<close>

datatype source_state = AL_INITIAL | AL_PLAYING | AL_PAUSED | AL_STOPPED

text \<open>
  What \<^verbatim>\<open>alBufferData\<close> is handed: floats, or the \<^verbatim>\<open>short\<close> array of a fallback
  path. An element of the latter is \<open>None\<close> where the C++ conversion from \<^verbatim>\<open>float\<close> to
  \<^verbatim>\<open>short\<close> has no defined result (the truncated value is not a \<^verbatim>\<open>short\<close>).
\<close>

datatype payload = Floats "real list" | Shorts "s16 option list"

text \<open>The calls that leave the loop, as they appear in the trace.\<close>

datatype event =
    SetChannels nat
  | SetSampleRate u32
  | SetSetting string int
  | GenBuffers u32
  | GenSources
  | SourceGain
  | WaitEvent
  | UnqueueBuffers u32
  | MixerMix u32
  | PutSamples "real list"
  | RequestRefreshInfo
  | SetTempo real
  | ClearEngine
  | ReceiveSamples nat
  | DPL2Decode nat
  | BufferData u32 al_format payload
  | QueueBuffers u32
  | SourcePlay
  | ErrorLog string ALenum string
  | WarnLog string

text \<open>
  The variables of \<^verbatim>\<open>SoundLoop\<close> that live across iterations, the member
  \<^verbatim>\<open>numBuffers\<close>, and three pieces of the libraries' state that the loop's own calls
  determine: the error flag of the AL context (\<open>al_error\<close>: the first error since the
  last \<^verbatim>\<open>alGetError\<close>, which is why line 194 clears it "before querying or else we
  get false positives"), the tempo last handed to \<^verbatim>\<open>soundTouch.setTempo\<close>, and the
  trace of calls.
\<close>

record state =
  surround_capable :: bool
  float32_capable :: bool
  numBuffers :: u32
  nextBuffer :: u32
  numBuffersQueued :: u32
  al_error :: ALenum
  st_tempo :: real
  trace :: "event list"

text \<open>
  What one iteration observes from outside: \<open>processed\<close> is the value stored in
  \<^verbatim>\<open>numBuffersProcessed\<close>; \<open>ticks_per_second\<close> and \<open>aid_sample_rate\<close> are
  \<^verbatim>\<open>SystemTimers::GetTicksPerSecond()\<close> and \<^verbatim>\<open>AudioInterface::GetAIDSampleRate()\<close>;
  \<open>mixed\<close> is what the mixer can deliver (interleaved stereo); \<open>speed1\<close> and \<open>speed2\<close>
  are the first and the second reading of \<^verbatim>\<open>GetCurrentSpeed()\<close>; \<open>received\<close> is what
  the engine has ready (interleaved stereo); \<open>decoded\<close> is what the decoder writes;
  \<open>src_state\<close> is the value stored in \<^verbatim>\<open>iState\<close>; the \<open>e_\<close> fields are the errors the
  device raises in the six AL calls of the iteration.
\<close>

record env =
  processed :: u32
  e_get_processed :: ALenum
  e_unqueue :: ALenum
  ticks_per_second :: u32
  aid_sample_rate :: u32
  mixed :: "s16 list"
  speed1 :: real
  speed2 :: real
  received :: "real list"
  decoded :: "real list"
  e_buffer_data :: ALenum
  e_queue :: ALenum
  src_state :: source_state
  e_get_state :: ALenum
  e_play :: ALenum

subsection \<open>The AL error flag and \<^verbatim>\<open>CheckALError\<close>\<close>

definition emit :: "event \<Rightarrow> state \<Rightarrow> state" where
  "emit ev s = s\<lparr>trace := trace s @ [ev]\<rparr>"

text \<open>An AL call that ends with error \<open>e\<close>: the flag keeps the first error recorded.\<close>

definition al_call :: "ALenum \<Rightarrow> state \<Rightarrow> state" where
  "al_call e s = (if al_error s = AL_NO_ERROR then s\<lparr>al_error := e\<rparr> else s)"

fun al_error_name :: "ALenum \<Rightarrow> string" where
  "al_error_name AL_INVALID_NAME = ''AL_INVALID_NAME''"
| "al_error_name AL_INVALID_ENUM = ''AL_INVALID_ENUM''"
| "al_error_name AL_INVALID_VALUE = ''AL_INVALID_VALUE''"
| "al_error_name AL_INVALID_OPERATION = ''AL_INVALID_OPERATION''"
| "al_error_name AL_OUT_OF_MEMORY = ''AL_OUT_OF_MEMORY''"
| "al_error_name _ = ''UNKNOWN_ERROR''"

text \<open>The \<^verbatim>\<open>ERROR_LOG\<close> line of \<^verbatim>\<open>CheckALError\<close>, written when the code is an error.\<close>

definition error_log :: "string \<Rightarrow> ALenum \<Rightarrow> event list" where
  "error_log desc err =
     (if err \<noteq> AL_NO_ERROR then [ErrorLog desc err (al_error_name err)] else [])"

text \<open>\<^verbatim>\<open>alGetError\<close> returns the flag and clears it.\<close>

definition CheckALError :: "string \<Rightarrow> state \<Rightarrow> ALenum \<times> state" where
  "CheckALError desc s =
     (let err = al_error s
      in (err, s\<lparr>al_error := AL_NO_ERROR, trace := trace s @ error_log desc err\<rparr>))"

subsection \<open>Reclaiming processed buffers (lines 236-243)\<close>

text \<open>
  \<^verbatim>\<open>numBuffersQueued -= numBuffersProcessed\<close> is unsigned arithmetic: it wraps when the
  device reports more than is queued.
\<close>

definition reclaim :: "env \<Rightarrow> state \<Rightarrow> state" where
  "reclaim e s =
     (if processed e \<noteq> 0 then
        let s1 = al_call (e_unqueue e) (emit (UnqueueBuffers (processed e)) s);
            s2 = snd (CheckALError ''unqueuing buffers'' s1)
        in s2\<lparr>numBuffersQueued := numBuffersQueued s2 - processed e\<rparr>
      else s)"

subsection \<open>Pulling samples from the mixer (lines 245-264)\<close>

text \<open>
  The two timer functions are declared outside the file; both are read as 32-bit
  unsigned values. A zero divisor is a division by zero in the C++: \<open>None\<close>.
\<close>

definition num_samples_to_render :: "u32 \<Rightarrow> u32 \<Rightarrow> u64 option" where
  "num_samples_to_render tps aid =
     (let stereo_16_bit_size = (4::u32);
          dma_length = (32::u32);
          ais_samples_per_second = (48000 * 4 :: u64);
          divisor = aid * stereo_16_bit_size div dma_length
      in if divisor = 0 \<or> tps = 0 then None
         else let audio_dma_period = (ucast (tps div divisor) :: u64)
              in Some (audio_dma_period * ais_samples_per_second div ucast tps))"

text \<open>
  \<^verbatim>\<open>OAL_MAX_SAMPLES\<close> is a macro of the absent header: the parameter \<open>M\<close> of the model.
  The request is the low 32 bits of the count, capped at \<open>M\<close>.
\<close>

definition mix_request :: "nat \<Rightarrow> u64 \<Rightarrow> u32" where
  "mix_request M n =
     (let numSamples = (ucast n :: u32)
      in if unat numSamples > M then of_nat M else numSamples)"

definition short_to_float :: "s16 \<Rightarrow> real" where
  "short_to_float x = real_of_int (sint x) / 2 ^ 15"

text \<open>
  The mixer returns at most what was asked for; \<open>dest\<close> holds two floats for each frame
  it returned.
\<close>

definition mixer_frames :: "u32 \<Rightarrow> env \<Rightarrow> nat" where
  "mixer_frames req e = min (unat req) (length (mixed e) div 2)"

definition pull :: "nat \<Rightarrow> u64 \<Rightarrow> env \<Rightarrow> real list" where
  "pull M n e =
     (let numSamples = mixer_frames (mix_request M n) e
      in map short_to_float (take (numSamples * 2) (mixed e)))"

subsection \<open>The tempo policy (lines 266-286)\<close>

definition read_rate :: "env \<Rightarrow> state \<Rightarrow> real \<times> state" where
  "read_rate e s =
     (if speed1 e \<le> 0 then (speed2 e, emit RequestRefreshInfo s) else (speed1 e, s))"

definition setTempo :: "real \<Rightarrow> state \<Rightarrow> state" where
  "setTempo r s = emit (SetTempo r) (s\<lparr>st_tempo := r\<rparr>)"

definition apply_tempo :: "real \<Rightarrow> state \<Rightarrow> state" where
  "apply_tempo rate s =
     (if rate > 0.10 then
        let s1 = setTempo rate s
        in if rate > 10 then emit ClearEngine s1 else s1
      else s)"

text \<open>
  \<^verbatim>\<open>receiveSamples(sampleBuffer, OAL_MAX_SAMPLES * numBuffers)\<close>: whole frames, at most
  the bound.
\<close>

definition drain :: "nat \<Rightarrow> env \<Rightarrow> real list" where
  "drain maxOut e =
     (let nSamples = min (length (received e) div 2) maxOut
      in take (nSamples * 2) (received e))"

subsection \<open>Encoding and the buffer write (lines 291-352)\<close>

text \<open>A C++ conversion from floating point to an integer type drops the fraction.\<close>

definition truncate_real :: "real \<Rightarrow> int" where
  "truncate_real x = (if 0 \<le> x then \<lfloor>x\<rfloor> else \<lceil>x\<rceil>)"

definition float_to_short :: "real \<Rightarrow> s16 option" where
  "float_to_short x =
     (let v = truncate_real (x * 2 ^ 15)
      in if - 32768 \<le> v \<and> v \<le> 32767 then Some (word_of_int v) else None)"

text \<open>
  The decoder writes six floats for each frame (a shorter observation is filled up with
  zeros); the loop then clears the fourth of each six.
\<close>

definition dpl2_buffer :: "nat \<Rightarrow> env \<Rightarrow> real list" where
  "dpl2_buffer nSamples e = take (nSamples * 6) (decoded e @ replicate (nSamples * 6) 0)"

definition zero_lfe :: "nat \<Rightarrow> real list \<Rightarrow> real list" where
  "zero_lfe nSamples dpl2 = fold (\<lambda>i b. b[i * 6 + 3 := 0]) [0..<nSamples] dpl2"

definition alBufferData :: "al_format \<Rightarrow> payload \<Rightarrow> env \<Rightarrow> state \<Rightarrow> state" where
  "alBufferData fmt data e s =
     al_call (e_buffer_data e) (emit (BufferData (nextBuffer s) fmt data) s)"

definition surround_warning :: string where
  "surround_warning =
     ''Unable to set 5.1 surround mode.  Updating OpenAL Soft might fix this issue.''"

definition buffer_surround :: "env \<Rightarrow> nat \<Rightarrow> state \<Rightarrow> state" where
  "buffer_surround e nSamples s =
     (let dpl2 = zero_lfe nSamples (dpl2_buffer nSamples e);
          s1 = emit (DPL2Decode nSamples) s;
          s2 = (if float32_capable s1
                then alBufferData AL_FORMAT_51CHN32 (Floats dpl2) e s1
                else alBufferData AL_FORMAT_51CHN16 (Shorts (map float_to_short dpl2)) e s1);
          (err, s3) = CheckALError ''buffering data'' s2
      in if err = AL_INVALID_ENUM
         then (emit (WarnLog surround_warning) s3)\<lparr>surround_capable := False\<rparr>
         else s3)"

definition buffer_stereo :: "env \<Rightarrow> real list \<Rightarrow> state \<Rightarrow> state" where
  "buffer_stereo e sampleBuffer s =
     (if float32_capable s then
        let s1 = alBufferData AL_FORMAT_STEREO_FLOAT32 (Floats sampleBuffer) e s;
            (err, s2) = CheckALError ''buffering float32 data'' s1
        in if err = AL_INVALID_ENUM then s2\<lparr>float32_capable := False\<rparr> else s2
      else alBufferData AL_FORMAT_STEREO16 (Shorts (map float_to_short sampleBuffer)) e s)"

definition buffer_data :: "env \<Rightarrow> nat \<Rightarrow> real list \<Rightarrow> state \<Rightarrow> state" where
  "buffer_data e nSamples sampleBuffer s =
     (if surround_capable s then buffer_surround e nSamples s
      else buffer_stereo e sampleBuffer s)"

subsection \<open>Queuing and underrun recovery (lines 354-366)\<close>

definition queue_buffer :: "env \<Rightarrow> state \<Rightarrow> state" where
  "queue_buffer e s =
     (let s1 = al_call (e_queue e) (emit (QueueBuffers (nextBuffer s)) s);
          s2 = snd (CheckALError ''queuing buffers'' s1)
      in s2\<lparr>numBuffersQueued := numBuffersQueued s2 + 1\<rparr>)"

definition ensure_playing :: "env \<Rightarrow> state \<Rightarrow> state" where
  "ensure_playing e s =
     (let s1 = al_call (e_get_state e) s
      in if src_state e \<noteq> AL_PLAYING
         then snd (CheckALError ''occurred resuming playback''
                     (al_call (e_play e) (emit SourcePlay s1)))
         else s1)"

subsection \<open>One iteration of the loop body (lines 226-366)\<close>

text \<open>
  \<open>Waited\<close>: the iteration reached \<^verbatim>\<open>soundSyncEvent.Wait()\<close>. \<open>Skipped\<close>: it left
  through the \<^verbatim>\<open>continue\<close> of line 289. \<open>Submitted\<close>: it ran to the end of the body.
  \<open>Faulted\<close>: it divided by zero (line 249, 252 or 358).
\<close>

datatype outcome = Waited | Skipped | Submitted | Faulted

text \<open>Lines 291-366: encode, write, queue, advance the cursor, resume playback.\<close>

definition submit :: "env \<Rightarrow> nat \<Rightarrow> real list \<Rightarrow> state \<Rightarrow> outcome \<times> state" where
  "submit e nSamples sampleBuffer s =
     (let s1 = queue_buffer e (buffer_data e nSamples sampleBuffer s)
      in if numBuffers s1 = 0 then (Faulted, s1)
         else (Submitted,
               ensure_playing e (s1\<lparr>nextBuffer := (nextBuffer s1 + 1) mod numBuffers s1\<rparr>)))"

text \<open>Lines 254-289: mix, feed the engine, apply the tempo policy, drain, test.\<close>

definition render :: "nat \<Rightarrow> u64 \<Rightarrow> env \<Rightarrow> state \<Rightarrow> outcome \<times> state" where
  "render M n e s =
     (let minSamples = (if surround_capable s then 240 else 0 :: nat);
          s1 = emit (PutSamples (pull M n e)) (emit (MixerMix (mix_request M n)) s);
          (rate, s2) = read_rate e s1;
          s3 = apply_tempo rate s2;
          maxOut = M * unat (numBuffers s3);
          sampleBuffer = drain maxOut e;
          nSamples = length sampleBuffer div 2;
          s4 = emit (ReceiveSamples maxOut) s3
      in if nSamples \<le> minSamples then (Skipped, s4)
         else submit e nSamples sampleBuffer s4)"

text \<open>Lines 226-252: the wait test, the reclaim, the timers; then the rest.\<close>

definition cycle :: "nat \<Rightarrow> env \<Rightarrow> state \<Rightarrow> outcome \<times> state" where
  "cycle M e s =
     (let s1 = al_call (e_get_processed e) s
      in if numBuffers s1 = numBuffersQueued s1 \<and> processed e = 0
         then (Waited, emit WaitEvent s1)
         else
           let s2 = reclaim e s1
           in case num_samples_to_render (ticks_per_second e) (aid_sample_rate e) of
                None \<Rightarrow> (Faulted, s2)
              | Some n \<Rightarrow> render M n e s2)"

subsection \<open>Set-up before the loop (lines 169-222)\<close>

fun starts_with :: "string \<Rightarrow> string \<Rightarrow> bool" where
  "starts_with _ [] = True"
| "starts_with [] (_ # _) = False"
| "starts_with (c # cs) (d # ds) = (c = d \<and> starts_with cs ds)"

text \<open>\<^verbatim>\<open>strstr(haystack, needle)\<close> as a truth value: is the result non-null?\<close>

fun strstr :: "string \<Rightarrow> string \<Rightarrow> bool" where
  "strstr [] needle = (needle = [])"
| "strstr (c # cs) needle = (starts_with (c # cs) needle \<or> strstr cs needle)"

text \<open>
  The observations of the set-up: the platform the file is compiled for, the two
  configuration values, the renderer string, the mixer's rate and the errors of the three
  AL calls. The declared type of the member \<^verbatim>\<open>numBuffers\<close> is not in the file; it is
  taken as wide as the counter it is compared with.
\<close>

record configuration =
  apple :: bool
  bDPL2Decoder :: bool
  iLatency :: int
  renderer :: string
  ulFrequency :: u32
  e_gen_buffers :: ALenum
  e_gen_sources :: ALenum
  e_gain :: ALenum

definition engine_init :: "u32 \<Rightarrow> state \<Rightarrow> state" where
  "engine_init freq s =
     emit (SetSetting ''SETTING_OVERLAP_MS'' 12)
       (emit (SetSetting ''SETTING_SEEKWINDOW_MS'' 28)
         (emit (SetSetting ''SETTING_SEQUENCE_MS'' 1)
           (emit (SetSetting ''SETTING_USE_AA_FILTER'' 0)
             (emit (SetSetting ''SETTING_USE_QUICKSEEK'' 0)
               (setTempo 1.0
                 (emit (SetSampleRate freq)
                   (emit (SetChannels 2) s)))))))"

definition SoundLoop_init :: "configuration \<Rightarrow> state" where
  "SoundLoop_init c =
     (let n = (word_of_int (iLatency c + 2) :: u32);
          s0 = \<lparr>surround_capable = bDPL2Decoder c \<and> \<not> apple c,
                float32_capable = \<not> apple c \<and> \<not> strstr (renderer c) ''X-Fi'',
                numBuffers = n, nextBuffer = 0, numBuffersQueued = 0,
                al_error = AL_NO_ERROR, st_tempo = 1, trace = []\<rparr>;
          s1 = snd (CheckALError ''generating buffers''
                 (al_call (e_gen_buffers c) (emit (GenBuffers n) s0)));
          s2 = snd (CheckALError ''generating sources''
                 (al_call (e_gen_sources c) (emit GenSources s1)));
          s3 = al_call (e_gain c) (emit SourceGain s2)
      in engine_init (ulFrequency c) s3)"

subsection \<open>The loop as a thread, with the run flag and the wake event\<close>

text \<open>
  Where the audio thread stands: at the test of \<^verbatim>\<open>m_run_thread.IsSet()\<close> (line 224),
  inside the body, blocked in \<^verbatim>\<open>soundSyncEvent.Wait()\<close> (line 231), returned from
  \<^verbatim>\<open>SoundLoop\<close>, or aborted by a division by zero.
\<close>

datatype pc = AtHead | InBody | AtWait | Returned | Aborted

record system =
  loop :: state
  pc :: pc
  run_thread :: bool
  sync_event :: bool

text \<open>
  What can happen next: the audio thread moves on (reading the observations of that
  iteration when it runs the body), another thread clears the run flag (line 79 of
  \<^verbatim>\<open>Stop\<close>), or another thread sets the event (line 81 of \<^verbatim>\<open>Stop\<close>, line 113 of
  \<^verbatim>\<open>Update\<close>).
\<close>

datatype action = Loop env | ClearRunFlag | SetSyncEvent

text \<open>
  Modelled from the spec: the class of \<^verbatim>\<open>soundSyncEvent\<close> is declared outside the file.
  The spec calls it "a single-slot event", "a single binary event that coalesces multiple
  notifications into one wake": setting it stores one wake, and a wait returns once a wake
  is stored, consuming it.
\<close>

definition event_wait :: "system \<Rightarrow> system" where
  "event_wait sys =
     (if sync_event sys then sys\<lparr>sync_event := False, pc := AtHead\<rparr> else sys)"

definition loop_step :: "nat \<Rightarrow> env \<Rightarrow> system \<Rightarrow> system" where
  "loop_step M e sys =
     (case pc sys of
        AtHead \<Rightarrow> if run_thread sys then sys\<lparr>pc := InBody\<rparr> else sys\<lparr>pc := Returned\<rparr>
      | InBody \<Rightarrow>
          (case cycle M e (loop sys) of
             (Waited, s') \<Rightarrow> sys\<lparr>loop := s', pc := AtWait\<rparr>
           | (Faulted, s') \<Rightarrow> sys\<lparr>loop := s', pc := Aborted\<rparr>
           | (_, s') \<Rightarrow> sys\<lparr>loop := s', pc := AtHead\<rparr>)
      | AtWait \<Rightarrow> event_wait sys
      | Returned \<Rightarrow> sys
      | Aborted \<Rightarrow> sys)"

fun step :: "nat \<Rightarrow> action \<Rightarrow> system \<Rightarrow> system" where
  "step M (Loop e) sys = loop_step M e sys"
| "step M ClearRunFlag sys = sys\<lparr>run_thread := False\<rparr>"
| "step M SetSyncEvent sys = sys\<lparr>sync_event := True\<rparr>"

definition exec :: "nat \<Rightarrow> action list \<Rightarrow> system \<Rightarrow> system" where
  "exec M acts sys = fold (step M) acts sys"

text \<open>
  \<^verbatim>\<open>Start\<close>, when the device and the context open: it sets the run flag and starts the
  thread at the top of \<^verbatim>\<open>SoundLoop\<close>. The event may or may not hold a wake already.
\<close>

definition Start :: "configuration \<Rightarrow> bool \<Rightarrow> system" where
  "Start c ev = \<lparr>loop = SoundLoop_init c, pc = AtHead, run_thread = True, sync_event = ev\<rparr>"

subsection \<open>Notions the properties are stated with\<close>

text \<open>The calls one iteration adds to the trace.\<close>

definition cycle_events :: "nat \<Rightarrow> env \<Rightarrow> state \<Rightarrow> event list" where
  "cycle_events M e s = drop (length (trace s)) (trace (snd (cycle M e s)))"

text \<open>The trace of \<open>s'\<close> continues the trace of \<open>s\<close>.\<close>

definition extends :: "state \<Rightarrow> state \<Rightarrow> bool" where
  "extends s s' \<longleftrightarrow> (\<exists>evs. trace s' = trace s @ evs)"

text \<open>Reading the trace one kind of call at a time.\<close>

fun is_engine_call :: "event \<Rightarrow> bool" where
  "is_engine_call (PutSamples xs) = True"
| "is_engine_call (SetTempo r) = True"
| "is_engine_call ClearEngine = True"
| "is_engine_call (ReceiveSamples k) = True"
| "is_engine_call _ = False"

fun is_write_or_queue :: "event \<Rightarrow> bool" where
  "is_write_or_queue (BufferData b f d) = True"
| "is_write_or_queue (QueueBuffers b) = True"
| "is_write_or_queue _ = False"

fun is_queue_or_play :: "event \<Rightarrow> bool" where
  "is_queue_or_play (QueueBuffers b) = True"
| "is_queue_or_play SourcePlay = True"
| "is_queue_or_play _ = False"

fun is_write_queue_or_log :: "event \<Rightarrow> bool" where
  "is_write_queue_or_log (BufferData b f d) = True"
| "is_write_queue_or_log (QueueBuffers b) = True"
| "is_write_queue_or_log (ErrorLog desc err name) = True"
| "is_write_queue_or_log (WarnLog msg) = True"
| "is_write_queue_or_log _ = False"

text \<open>The tempo multiplier an iteration works with: the second reading if the first is not positive.\<close>

definition effective_rate :: "env \<Rightarrow> real" where
  "effective_rate e = (if speed1 e \<le> 0 then speed2 e else speed1 e)"

text \<open>The number of frames an iteration drains from the engine (\<^verbatim>\<open>nSamples\<close>).\<close>

definition drained_count :: "nat \<Rightarrow> env \<Rightarrow> state \<Rightarrow> nat" where
  "drained_count M e s = length (drain (M * unat (numBuffers s)) e) div 2"

text \<open>The format of the branch of lines 291-352 that the capability flags select.\<close>

definition chosen_format :: "state \<Rightarrow> al_format" where
  "chosen_format s =
     (if surround_capable s
      then (if float32_capable s then AL_FORMAT_51CHN32 else AL_FORMAT_51CHN16)
      else (if float32_capable s then AL_FORMAT_STEREO_FLOAT32 else AL_FORMAT_STEREO16))"

text \<open>What the branch that the capability flags select hands to \<^verbatim>\<open>alBufferData\<close>.\<close>

definition selected_payload :: "nat \<Rightarrow> env \<Rightarrow> state \<Rightarrow> payload" where
  "selected_payload M e s =
     (let sampleBuffer = drain (M * unat (numBuffers s)) e;
          nSamples = length sampleBuffer div 2;
          dpl2 = zero_lfe nSamples (dpl2_buffer nSamples e)
      in if surround_capable s
         then (if float32_capable s then Floats dpl2 else Shorts (map float_to_short dpl2))
         else (if float32_capable s then Floats sampleBuffer
               else Shorts (map float_to_short sampleBuffer)))"

text \<open>The condition of line 229, on the values the iteration starts with.\<close>

definition must_wait :: "env \<Rightarrow> state \<Rightarrow> bool" where
  "must_wait e s \<longleftrightarrow> numBuffers s = numBuffersQueued s \<and> processed e = 0"

text \<open>The iteration gets as far as the mixer: it does not wait, and the timers give \<open>n\<close>.\<close>

definition renders :: "u64 \<Rightarrow> env \<Rightarrow> state \<Rightarrow> bool" where
  "renders n e s \<longleftrightarrow>
     \<not> must_wait e s
     \<and> num_samples_to_render (ticks_per_second e) (aid_sample_rate e) = Some n"

text \<open>
  A device that keeps its contract never reports more processed buffers than are queued.
  Along a schedule: every report read in the body is at most the count at that moment.
\<close>

fun reports_consistent :: "nat \<Rightarrow> action list \<Rightarrow> system \<Rightarrow> bool" where
  "reports_consistent M [] sys = True"
| "reports_consistent M (Loop e # acts) sys =
     ((pc sys = InBody \<longrightarrow> processed e \<le> numBuffersQueued (loop sys))
      \<and> reports_consistent M acts (step M (Loop e) sys))"
| "reports_consistent M (a # acts) sys = reports_consistent M acts (step M a sys)"

text \<open>
  The count of slots out at the device, read off the calls: an unqueue call takes its
  slots off, a queue call adds one (unsigned arithmetic, as \<^verbatim>\<open>numBuffersQueued\<close>).
  \<open>count_history c evs\<close> lists every value the count goes through from \<open>c\<close>, call by
  call, so also the values between the calls of one iteration.
\<close>

fun is_unqueue_or_queue :: "event \<Rightarrow> bool" where
  "is_unqueue_or_queue (UnqueueBuffers p) = True"
| "is_unqueue_or_queue (QueueBuffers b) = True"
| "is_unqueue_or_queue _ = False"

fun count_after :: "event \<Rightarrow> u32 \<Rightarrow> u32" where
  "count_after (UnqueueBuffers p) c = c - p"
| "count_after (QueueBuffers b) c = c + 1"
| "count_after _ c = c"

fun count_history :: "u32 \<Rightarrow> event list \<Rightarrow> u32 list" where
  "count_history c [] = [c]"
| "count_history c (ev # evs) = c # count_history (count_after ev c) evs"

text \<open>
  The AL error flag as line 349 finds it: what is pending after the query of line 228 and
  the reclaim. The flag after a call that raises \<open>raised\<close> while \<open>pending\<close> is set keeps
  \<open>pending\<close>.
\<close>

definition pending_before_write :: "env \<Rightarrow> state \<Rightarrow> ALenum" where
  "pending_before_write e s = al_error (reclaim e (al_call (e_get_processed e) s))"

definition first_error :: "ALenum \<Rightarrow> ALenum \<Rightarrow> ALenum" where
  "first_error pending raised = (if pending = AL_NO_ERROR then raised else pending)"

fun is_loop :: "action \<Rightarrow> bool" where
  "is_loop (Loop e) = True"
| "is_loop _ = False"

fun timers_nonzero :: "action \<Rightarrow> bool" where
  "timers_nonzero (Loop e) =
     (num_samples_to_render (ticks_per_second e) (aid_sample_rate e) \<noteq> None)"
| "timers_nonzero _ = True"

text \<open>
  A stop has been signalled: the run flag is clear, and a thread that has not yet passed
  the wait still finds the wake stored.
\<close>

definition stop_signalled :: "system \<Rightarrow> bool" where
  "stop_signalled sys \<longleftrightarrow>
     \<not> run_thread sys \<and> (pc sys = InBody \<or> pc sys = AtWait \<longrightarrow> sync_event sys)"

text \<open>How many moves the thread can still make, at most, once a stop is signalled.\<close>

fun moves_left :: "pc \<Rightarrow> nat" where
  "moves_left InBody = 3"
| "moves_left AtWait = 2"
| "moves_left AtHead = 1"
| "moves_left Returned = 0"
| "moves_left Aborted = 0"

subsection \<open>A concrete session\<close>

text \<open>
  Four buffers (latency 2), surround off, a renderer other than X-Fi; one iteration that
  mixes one frame and drains one frame at speed 1 while the source is not yet playing.
\<close>

definition example_configuration :: configuration where
  "example_configuration =
     \<lparr>apple = False, bDPL2Decoder = False, iLatency = 2, renderer = ''OpenAL Soft'',
      ulFrequency = 32000, e_gen_buffers = AL_NO_ERROR, e_gen_sources = AL_NO_ERROR,
      e_gain = AL_NO_ERROR\<rparr>"

definition example_env :: env where
  "example_env =
     \<lparr>processed = 0, e_get_processed = AL_NO_ERROR, e_unqueue = AL_NO_ERROR,
      ticks_per_second = 486000000, aid_sample_rate = 32000,
      mixed = [16384, - 16384], speed1 = 1, speed2 = 1,
      received = [1 / 2, - 1 / 2], decoded = [],
      e_buffer_data = AL_NO_ERROR, e_queue = AL_NO_ERROR,
      src_state = AL_STOPPED, e_get_state = AL_NO_ERROR, e_play = AL_NO_ERROR\<rparr>"

definition example_state :: state where
  "example_state = SoundLoop_init example_configuration"

section \<open>Properties\<close>

subsection \<open>What each stage leaves unchanged\<close>

lemma emit_fields [simp]:
  "surround_capable (emit ev s) = surround_capable s"
  "float32_capable (emit ev s) = float32_capable s"
  "numBuffers (emit ev s) = numBuffers s"
  "nextBuffer (emit ev s) = nextBuffer s"
  "numBuffersQueued (emit ev s) = numBuffersQueued s"
  "al_error (emit ev s) = al_error s"
  "st_tempo (emit ev s) = st_tempo s"
  "trace (emit ev s) = trace s @ [ev]"
  by (simp_all add: emit_def)

lemma al_call_fields [simp]:
  "surround_capable (al_call x s) = surround_capable s"
  "float32_capable (al_call x s) = float32_capable s"
  "numBuffers (al_call x s) = numBuffers s"
  "nextBuffer (al_call x s) = nextBuffer s"
  "numBuffersQueued (al_call x s) = numBuffersQueued s"
  "st_tempo (al_call x s) = st_tempo s"
  "trace (al_call x s) = trace s"
  "al_error (al_call x s) = (if al_error s = AL_NO_ERROR then x else al_error s)"
  by (simp_all add: al_call_def)

lemma check_fields [simp]:
  "fst (CheckALError d s) = al_error s"
  "surround_capable (snd (CheckALError d s)) = surround_capable s"
  "float32_capable (snd (CheckALError d s)) = float32_capable s"
  "numBuffers (snd (CheckALError d s)) = numBuffers s"
  "nextBuffer (snd (CheckALError d s)) = nextBuffer s"
  "numBuffersQueued (snd (CheckALError d s)) = numBuffersQueued s"
  "st_tempo (snd (CheckALError d s)) = st_tempo s"
  "al_error (snd (CheckALError d s)) = AL_NO_ERROR"
  "trace (snd (CheckALError d s)) = trace s @ error_log d (al_error s)"
  by (simp_all add: CheckALError_def Let_def)

lemma reclaim_fields [simp]:
  "surround_capable (reclaim e s) = surround_capable s"
  "float32_capable (reclaim e s) = float32_capable s"
  "numBuffers (reclaim e s) = numBuffers s"
  "nextBuffer (reclaim e s) = nextBuffer s"
  "st_tempo (reclaim e s) = st_tempo s"
  "numBuffersQueued (reclaim e s) = numBuffersQueued s - processed e"
  by (simp_all add: reclaim_def Let_def)

lemma read_rate_fields [simp]:
  "fst (read_rate e s) = (if speed1 e \<le> 0 then speed2 e else speed1 e)"
  "surround_capable (snd (read_rate e s)) = surround_capable s"
  "float32_capable (snd (read_rate e s)) = float32_capable s"
  "numBuffers (snd (read_rate e s)) = numBuffers s"
  "nextBuffer (snd (read_rate e s)) = nextBuffer s"
  "numBuffersQueued (snd (read_rate e s)) = numBuffersQueued s"
  "st_tempo (snd (read_rate e s)) = st_tempo s"
  "al_error (snd (read_rate e s)) = al_error s"
  by (simp_all add: read_rate_def)

lemma apply_tempo_fields [simp]:
  "surround_capable (apply_tempo r s) = surround_capable s"
  "float32_capable (apply_tempo r s) = float32_capable s"
  "numBuffers (apply_tempo r s) = numBuffers s"
  "nextBuffer (apply_tempo r s) = nextBuffer s"
  "numBuffersQueued (apply_tempo r s) = numBuffersQueued s"
  "al_error (apply_tempo r s) = al_error s"
  by (simp_all add: apply_tempo_def setTempo_def Let_def)

lemma alBufferData_fields [simp]:
  "surround_capable (alBufferData f d e s) = surround_capable s"
  "float32_capable (alBufferData f d e s) = float32_capable s"
  "numBuffers (alBufferData f d e s) = numBuffers s"
  "nextBuffer (alBufferData f d e s) = nextBuffer s"
  "numBuffersQueued (alBufferData f d e s) = numBuffersQueued s"
  "st_tempo (alBufferData f d e s) = st_tempo s"
  "trace (alBufferData f d e s) = trace s @ [BufferData (nextBuffer s) f d]"
  "al_error (alBufferData f d e s) =
     (if al_error s = AL_NO_ERROR then e_buffer_data e else al_error s)"
  by (simp_all add: alBufferData_def)

lemma buffer_data_fields [simp]:
  "numBuffers (buffer_data e n b s) = numBuffers s"
  "nextBuffer (buffer_data e n b s) = nextBuffer s"
  "numBuffersQueued (buffer_data e n b s) = numBuffersQueued s"
  "st_tempo (buffer_data e n b s) = st_tempo s"
  by (simp_all add: buffer_data_def buffer_surround_def buffer_stereo_def Let_def split_def)

lemma buffer_data_float32:
  "float32_capable (buffer_data e n b s) \<Longrightarrow> float32_capable s"
  by (simp add: buffer_data_def buffer_surround_def buffer_stereo_def Let_def split_def
      split: if_splits)

lemma buffer_data_surround:
  "surround_capable (buffer_data e n b s) \<Longrightarrow> surround_capable s"
  by (simp add: buffer_data_def buffer_surround_def buffer_stereo_def Let_def split_def
      split: if_splits)

lemma queue_buffer_fields [simp]:
  "surround_capable (queue_buffer e s) = surround_capable s"
  "float32_capable (queue_buffer e s) = float32_capable s"
  "numBuffers (queue_buffer e s) = numBuffers s"
  "nextBuffer (queue_buffer e s) = nextBuffer s"
  "numBuffersQueued (queue_buffer e s) = numBuffersQueued s + 1"
  "st_tempo (queue_buffer e s) = st_tempo s"
  "al_error (queue_buffer e s) = AL_NO_ERROR"
  by (simp_all add: queue_buffer_def Let_def)

lemma ensure_playing_fields [simp]:
  "surround_capable (ensure_playing e s) = surround_capable s"
  "float32_capable (ensure_playing e s) = float32_capable s"
  "numBuffers (ensure_playing e s) = numBuffers s"
  "nextBuffer (ensure_playing e s) = nextBuffer s"
  "numBuffersQueued (ensure_playing e s) = numBuffersQueued s"
  "st_tempo (ensure_playing e s) = st_tempo s"
  by (simp_all add: ensure_playing_def Let_def)


lemma submit_fields [simp]:
  "numBuffers (snd (submit e n b s)) = numBuffers s"
  "st_tempo (snd (submit e n b s)) = st_tempo s"
  "numBuffersQueued (snd (submit e n b s)) = numBuffersQueued s + 1"
  "fst (submit e n b s) = (if numBuffers s = 0 then Faulted else Submitted)"
  by (simp_all add: submit_def Let_def)

lemma submit_float32: "float32_capable (snd (submit e n b s)) \<Longrightarrow> float32_capable s"
  by (simp add: submit_def Let_def buffer_data_float32 split: if_splits)

lemma submit_surround: "surround_capable (snd (submit e n b s)) \<Longrightarrow> surround_capable s"
  by (simp add: submit_def Let_def buffer_data_surround split: if_splits)

lemma render_numBuffers [simp]: "numBuffers (snd (render M n e s)) = numBuffers s"
  by (simp add: render_def Let_def split_def)

lemma render_float32: "float32_capable (snd (render M n e s)) \<Longrightarrow> float32_capable s"
  by (auto simp: render_def Let_def split_def dest: submit_float32 split: if_splits)

lemma render_surround: "surround_capable (snd (render M n e s)) \<Longrightarrow> surround_capable s"
  by (auto simp: render_def Let_def split_def dest: submit_surround split: if_splits)

lemma render_outcome:
  "fst (render M n e s) =
     (if drained_count M e s \<le> (if surround_capable s then 240 else 0) then Skipped
      else if numBuffers s = 0 then Faulted else Submitted)"
  by (simp add: render_def Let_def split_def drained_count_def)

lemma cycle_numBuffers [simp]: "numBuffers (snd (cycle M e s)) = numBuffers s"
  by (simp add: cycle_def Let_def split: option.splits)

lemma cycle_float32: "float32_capable (snd (cycle M e s)) \<Longrightarrow> float32_capable s"
  by (auto simp: cycle_def Let_def dest: render_float32 split: option.splits if_splits)

lemma cycle_surround: "surround_capable (snd (cycle M e s)) \<Longrightarrow> surround_capable s"
  by (auto simp: cycle_def Let_def dest: render_surround split: option.splits if_splits)

lemma cycle_outcome:
  "fst (cycle M e s) =
     (if numBuffers s = numBuffersQueued s \<and> processed e = 0 then Waited
      else if num_samples_to_render (ticks_per_second e) (aid_sample_rate e) = None
      then Faulted
      else if drained_count M e s \<le> (if surround_capable s then 240 else 0) then Skipped
      else if numBuffers s = 0 then Faulted else Submitted)"
  by (auto simp: cycle_def Let_def render_outcome drained_count_def split: option.splits)

lemma cycle_waits: "must_wait e s \<Longrightarrow> cycle M e s = (Waited, emit WaitEvent (al_call (e_get_processed e) s))"
  by (auto simp: cycle_def must_wait_def Let_def)

lemma cycle_renders:
  "renders n e s \<Longrightarrow> cycle M e s = render M n e (reclaim e (al_call (e_get_processed e) s))"
  by (auto simp: cycle_def renders_def must_wait_def Let_def)

subsection \<open>What each stage writes to the trace\<close>

lemma reclaim_trace:
  "trace (reclaim e s) =
     trace s @ (if processed e \<noteq> 0
                then UnqueueBuffers (processed e) #
                     error_log ''unqueuing buffers'' (al_error (al_call (e_unqueue e) s))
                else [])"
  by (simp add: reclaim_def Let_def)

lemma reclaim_al_error:
  "al_error (reclaim e s) = (if processed e \<noteq> 0 then AL_NO_ERROR else al_error s)"
  by (simp add: reclaim_def Let_def)

lemma read_rate_trace:
  "trace (snd (read_rate e s)) = trace s @ (if speed1 e \<le> 0 then [RequestRefreshInfo] else [])"
  by (simp add: read_rate_def)

lemma apply_tempo_trace:
  "trace (apply_tempo r s) =
     trace s @ (if r > 0.10 then SetTempo r # (if r > 10 then [ClearEngine] else []) else [])"
  by (simp add: apply_tempo_def setTempo_def Let_def)

lemma apply_tempo_st_tempo:
  "st_tempo (apply_tempo r s) = (if r > 0.10 then r else st_tempo s)"
  by (simp add: apply_tempo_def setTempo_def Let_def)

lemma queue_buffer_trace:
  "trace (queue_buffer e s) =
     trace s @ QueueBuffers (nextBuffer s) #
       error_log ''queuing buffers'' (al_error (al_call (e_queue e) s))"
  by (simp add: queue_buffer_def Let_def)

lemma ensure_playing_trace:
  "trace (ensure_playing e s) =
     trace s @ (if src_state e \<noteq> AL_PLAYING
                then SourcePlay #
                     error_log ''occurred resuming playback''
                       (al_error (al_call (e_play e) (al_call (e_get_state e) s)))
                else [])"
  by (simp add: ensure_playing_def Let_def)

lemma buffer_stereo_trace:
  "trace (buffer_stereo e b s) =
     trace s @
       (if float32_capable s
        then BufferData (nextBuffer s) AL_FORMAT_STEREO_FLOAT32 (Floats b) #
             error_log ''buffering float32 data'' (al_error (al_call (e_buffer_data e) s))
        else [BufferData (nextBuffer s) AL_FORMAT_STEREO16 (Shorts (map float_to_short b))])"
  by (simp add: buffer_stereo_def Let_def split_def)

lemma buffer_surround_trace:
  "trace (buffer_surround e n s) =
     trace s @
       [DPL2Decode n,
        BufferData (nextBuffer s)
          (if float32_capable s then AL_FORMAT_51CHN32 else AL_FORMAT_51CHN16)
          (if float32_capable s then Floats (zero_lfe n (dpl2_buffer n e))
           else Shorts (map float_to_short (zero_lfe n (dpl2_buffer n e))))] @
       error_log ''buffering data'' (al_error (al_call (e_buffer_data e) s)) @
       (if al_error (al_call (e_buffer_data e) s) = AL_INVALID_ENUM
        then [WarnLog surround_warning] else [])"
  by (simp add: buffer_surround_def Let_def split_def)

lemma buffer_data_al_error:
  "al_error (buffer_data e n b s) =
     (if surround_capable s \<or> float32_capable s then AL_NO_ERROR
      else al_error (al_call (e_buffer_data e) s))"
  by (simp add: buffer_data_def buffer_surround_def buffer_stereo_def Let_def split_def)

lemma buffer_data_flags:
  "surround_capable (buffer_data e n b s) =
     (surround_capable s \<and> al_error (al_call (e_buffer_data e) s) \<noteq> AL_INVALID_ENUM)"
  "float32_capable (buffer_data e n b s) =
     (float32_capable s \<and>
      (surround_capable s \<or> al_error (al_call (e_buffer_data e) s) \<noteq> AL_INVALID_ENUM))"
  by (auto simp add: buffer_data_def buffer_surround_def buffer_stereo_def Let_def split_def)

subsection \<open>Every stage only adds to the trace\<close>

lemma extends_refl [simp]: "extends s s"
  by (simp add: extends_def)

lemma extends_trans: "extends s t \<Longrightarrow> extends t u \<Longrightarrow> extends s u"
  by (auto simp: extends_def)

lemma extends_emit [simp]: "extends s t \<Longrightarrow> extends s (emit ev t)"
  by (auto simp: extends_def)

lemma extends_al_call [simp]: "extends s t \<Longrightarrow> extends s (al_call x t)"
  by (auto simp: extends_def)

lemma extends_check [simp]: "extends s t \<Longrightarrow> extends s (snd (CheckALError d t))"
  by (auto simp: extends_def)

lemma extends_reclaim [simp]: "extends s t \<Longrightarrow> extends s (reclaim e t)"
  by (auto simp: extends_def reclaim_trace)

lemma extends_read_rate [simp]: "extends s t \<Longrightarrow> extends s (snd (read_rate e t))"
  by (auto simp: extends_def read_rate_trace)

lemma extends_apply_tempo [simp]: "extends s t \<Longrightarrow> extends s (apply_tempo r t)"
  by (auto simp: extends_def apply_tempo_trace)

lemma extends_buffer_data [simp]: "extends s t \<Longrightarrow> extends s (buffer_data e n b t)"
  by (auto simp: extends_def buffer_data_def buffer_stereo_trace buffer_surround_trace)

lemma extends_queue_buffer [simp]: "extends s t \<Longrightarrow> extends s (queue_buffer e t)"
  by (auto simp: extends_def queue_buffer_trace)

lemma extends_ensure_playing [simp]: "extends s t \<Longrightarrow> extends s (ensure_playing e t)"
  by (auto simp: extends_def ensure_playing_trace)

lemma extends_nextBuffer [simp]: "extends s t \<Longrightarrow> extends s (t\<lparr>nextBuffer := x\<rparr>)"
  by (auto simp: extends_def)

lemma extends_submit [simp]: "extends s t \<Longrightarrow> extends s (snd (submit e n b t))"
  by (simp add: submit_def Let_def)

lemma extends_render [simp]: "extends s t \<Longrightarrow> extends s (snd (render M n e t))"
  by (simp add: render_def Let_def split_def)

lemma extends_cycle [simp]: "extends s (snd (cycle M e s))"
  by (simp add: cycle_def Let_def split: option.splits)

lemma cycle_trace: "trace (snd (cycle M e s)) = trace s @ cycle_events M e s"
  using extends_cycle [of s M e] by (auto simp: extends_def cycle_events_def)

lemma cycle_events_filter:
  "filter P (trace (snd (cycle M e s))) = filter P (trace s) @ evs \<Longrightarrow>
   filter P (cycle_events M e s) = evs"
  by (simp add: cycle_trace)

lemma filter_error_log [simp]:
  "filter is_engine_call (error_log d x) = []"
  "filter is_queue_or_play (error_log d x) = []"
  "filter is_write_or_queue (error_log d x) = []"
  "filter is_write_queue_or_log (error_log d x) = error_log d x"
  by (simp_all add: error_log_def)

subsection \<open>The engine calls of an iteration\<close>

lemma engine_reclaim [simp]:
  "filter is_engine_call (trace (reclaim e s)) = filter is_engine_call (trace s)"
  by (simp add: reclaim_trace)

lemma engine_read_rate [simp]:
  "filter is_engine_call (trace (snd (read_rate e s))) = filter is_engine_call (trace s)"
  by (simp add: read_rate_trace)

lemma engine_apply_tempo [simp]:
  "filter is_engine_call (trace (apply_tempo r s)) =
     filter is_engine_call (trace s) @
       (if r > 0.10 then SetTempo r # (if r > 10 then [ClearEngine] else []) else [])"
  by (simp add: apply_tempo_trace)

lemma engine_buffer_data [simp]:
  "filter is_engine_call (trace (buffer_data e n b s)) = filter is_engine_call (trace s)"
  by (simp add: buffer_data_def buffer_stereo_trace buffer_surround_trace)

lemma engine_submit [simp]:
  "filter is_engine_call (trace (snd (submit e n b s))) = filter is_engine_call (trace s)"
  by (simp add: submit_def Let_def queue_buffer_trace ensure_playing_trace)

lemma engine_render:
  "filter is_engine_call (trace (snd (render M n e s))) =
     filter is_engine_call (trace s) @
       PutSamples (pull M n e) #
       (if effective_rate e > 0.10
        then SetTempo (effective_rate e) # (if effective_rate e > 10 then [ClearEngine] else [])
        else []) @
       [ReceiveSamples (M * unat (numBuffers s))]"
  by (simp add: render_def Let_def split_def effective_rate_def)

lemma engine_cycle:
  assumes "renders n e s"
  shows "filter is_engine_call (cycle_events M e s) =
       PutSamples (pull M n e) #
       (if effective_rate e > 0.10
        then SetTempo (effective_rate e) # (if effective_rate e > 10 then [ClearEngine] else [])
        else []) @
       [ReceiveSamples (M * unat (numBuffers s))]"
  by (rule cycle_events_filter) (simp add: cycle_renders [OF assms] engine_render)

lemma render_st_tempo:
  "st_tempo (snd (render M n e s)) =
     (if effective_rate e > 0.10 then effective_rate e else st_tempo s)"
  by (simp add: render_def Let_def split_def apply_tempo_st_tempo effective_rate_def)

lemma cycle_st_tempo:
  "renders n e s \<Longrightarrow>
   st_tempo (snd (cycle M e s)) =
     (if effective_rate e > 0.10 then effective_rate e else st_tempo s)"
  by (simp add: cycle_renders render_st_tempo)

lemma cycle_st_tempo_slow:
  "effective_rate e \<le> 0.10 \<Longrightarrow> st_tempo (snd (cycle M e s)) = st_tempo s"
  by (simp add: cycle_def Let_def render_st_tempo split: option.splits)

subsection \<open>The queue and play calls of an iteration\<close>

lemma qp_buffer_data [simp]:
  "filter is_queue_or_play (trace (buffer_data e n b s)) = filter is_queue_or_play (trace s)"
  by (simp add: buffer_data_def buffer_stereo_trace buffer_surround_trace)

lemma qp_submit:
  "filter is_queue_or_play (trace (snd (submit e n b s))) =
     filter is_queue_or_play (trace s) @
       QueueBuffers (nextBuffer s) #
       (if numBuffers s \<noteq> 0 \<and> src_state e \<noteq> AL_PLAYING then [SourcePlay] else [])"
  by (simp add: submit_def Let_def queue_buffer_trace ensure_playing_trace)

lemma qp_render:
  "filter is_queue_or_play (trace (snd (render M n e s))) =
     filter is_queue_or_play (trace s) @
       (if drained_count M e s \<le> (if surround_capable s then 240 else 0) then []
        else QueueBuffers (nextBuffer s) #
             (if numBuffers s \<noteq> 0 \<and> src_state e \<noteq> AL_PLAYING then [SourcePlay] else []))"
  by (simp add: render_def Let_def split_def qp_submit read_rate_trace apply_tempo_trace
      drained_count_def)

lemma submitted_iff:
  "fst (cycle M e s) = Submitted \<longleftrightarrow>
     (\<exists>n. renders n e s)
     \<and> (if surround_capable s then 240 else 0) < drained_count M e s
     \<and> numBuffers s \<noteq> 0"
  by (auto simp: cycle_outcome renders_def must_wait_def)

lemma qp_cycle:
  assumes "renders n e s"
  shows "filter is_queue_or_play (cycle_events M e s) =
       (if drained_count M e s \<le> (if surround_capable s then 240 else 0) then []
        else QueueBuffers (nextBuffer s) #
             (if numBuffers s \<noteq> 0 \<and> src_state e \<noteq> AL_PLAYING then [SourcePlay] else []))"
proof (rule cycle_events_filter)
  let ?s2 = "reclaim e (al_call (e_get_processed e) s)"
  have t: "filter is_queue_or_play (trace ?s2) = filter is_queue_or_play (trace s)"
    by (simp add: reclaim_trace)
  have d: "drained_count M e ?s2 = drained_count M e s"
    by (simp add: drained_count_def)
  show "filter is_queue_or_play (trace (snd (cycle M e s))) =
          filter is_queue_or_play (trace s) @
       (if drained_count M e s \<le> (if surround_capable s then 240 else 0) then []
        else QueueBuffers (nextBuffer s) #
             (if numBuffers s \<noteq> 0 \<and> src_state e \<noteq> AL_PLAYING then [SourcePlay] else []))"
    unfolding cycle_renders [OF assms] qp_render t d by simp
qed

subsection \<open>The concrete session, evaluated\<close>


lemma example_state_fields [simp]:
  "surround_capable example_state = False"
  "float32_capable example_state = True"
  "numBuffers example_state = 4"
  "nextBuffer example_state = 0"
  "numBuffersQueued example_state = 0"
  "al_error example_state = AL_NO_ERROR"
  "st_tempo example_state = 1"
  by (simp_all add: example_state_def SoundLoop_init_def example_configuration_def
      engine_init_def setTempo_def Let_def)

lemma example_env_fields [simp]:
  "processed example_env = 0"
  "e_get_processed example_env = AL_NO_ERROR"
  "e_unqueue example_env = AL_NO_ERROR"
  "ticks_per_second example_env = 486000000"
  "aid_sample_rate example_env = 32000"
  "mixed example_env = [16384, - 16384]"
  "speed1 example_env = 1"
  "speed2 example_env = 1"
  "received example_env = [1 / 2, - 1 / 2]"
  "decoded example_env = []"
  "e_buffer_data example_env = AL_NO_ERROR"
  "e_queue example_env = AL_NO_ERROR"
  "src_state example_env = AL_STOPPED"
  "e_get_state example_env = AL_NO_ERROR"
  "e_play example_env = AL_NO_ERROR"
  by (simp_all add: example_env_def)

lemma example_timers: "num_samples_to_render 486000000 32000 = Some 48"
  by (simp add: num_samples_to_render_def Let_def)

lemma example_renders [simp]: 
  "ticks_per_second e = 486000000 \<Longrightarrow> aid_sample_rate e = 32000 \<Longrightarrow> processed e = 0 \<Longrightarrow> renders 48 e example_state"
  by (simp add: renders_def must_wait_def example_timers)

lemma example_drained [simp]: 
  "received e = [1 / 2, - 1 / 2] \<Longrightarrow> drained_count 256 e example_state = 1"
  by (simp add: drained_count_def drain_def)

lemma example_pull: "mixed e = [16384, - 16384] \<Longrightarrow> pull 256 48 e = [1 / 2, - 1 / 2]"
  by (simp add: pull_def mixer_frames_def mix_request_def short_to_float_def)

subsection \<open>The capability flags across an iteration and across a schedule\<close>

lemma submit_flags:
  "surround_capable (snd (submit e n b s)) = surround_capable (buffer_data e n b s)"
  "float32_capable (snd (submit e n b s)) = float32_capable (buffer_data e n b s)"
  by (simp_all add: submit_def Let_def)

lemma render_flags:
  assumes "(if surround_capable s then 240 else 0) < drained_count M e s"
  shows "surround_capable (snd (render M n e s)) =
           (surround_capable s \<and> al_error (al_call (e_buffer_data e) s) \<noteq> AL_INVALID_ENUM)"
    and "float32_capable (snd (render M n e s)) =
           (float32_capable s \<and>
            (surround_capable s \<or> al_error (al_call (e_buffer_data e) s) \<noteq> AL_INVALID_ENUM))"
  using assms
  by (simp_all add: render_def Let_def split_def drained_count_def submit_flags
      buffer_data_flags)

lemma cycle_flags:
  assumes "renders n e s"
      and "(if surround_capable s then 240 else 0) < drained_count M e s"
  shows "surround_capable (snd (cycle M e s)) =
           (surround_capable s \<and>
            al_error (al_call (e_buffer_data e) (reclaim e (al_call (e_get_processed e) s)))
              \<noteq> AL_INVALID_ENUM)"
    and "float32_capable (snd (cycle M e s)) =
           (float32_capable s \<and>
            (surround_capable s \<or>
             al_error (al_call (e_buffer_data e) (reclaim e (al_call (e_get_processed e) s)))
               \<noteq> AL_INVALID_ENUM))"
proof -
  let ?s2 = "reclaim e (al_call (e_get_processed e) s)"
  have d: "(if surround_capable ?s2 then 240 else 0) < drained_count M e ?s2"
    using assms(2) by (simp add: drained_count_def)
  show "surround_capable (snd (cycle M e s)) =
           (surround_capable s \<and> al_error (al_call (e_buffer_data e) ?s2) \<noteq> AL_INVALID_ENUM)"
    unfolding cycle_renders [OF assms(1)] render_flags(1) [OF d] by simp
  show "float32_capable (snd (cycle M e s)) =
           (float32_capable s \<and>
            (surround_capable s \<or> al_error (al_call (e_buffer_data e) ?s2) \<noteq> AL_INVALID_ENUM))"
    unfolding cycle_renders [OF assms(1)] render_flags(2) [OF d] by simp
qed

lemma loop_step_cases:
  "loop (loop_step M e sys) = loop sys \<or> loop (loop_step M e sys) = snd (cycle M e (loop sys))"
  by (auto simp: loop_step_def event_wait_def split: pc.splits prod.splits outcome.splits)

lemma step_cases:
  "loop (step M a sys) = loop sys \<or> (\<exists>e. loop (step M a sys) = snd (cycle M e (loop sys)))"
  using loop_step_cases by (cases a) auto

lemma step_float32:
  assumes "float32_capable (loop (step M a sys))"
  shows "float32_capable (loop sys)"
  using step_cases [of M a sys]
proof
  assume "loop (step M a sys) = loop sys"
  with assms show ?thesis by simp
next
  assume "\<exists>e. loop (step M a sys) = snd (cycle M e (loop sys))"
  then obtain e where "loop (step M a sys) = snd (cycle M e (loop sys))" ..
  with assms have "float32_capable (snd (cycle M e (loop sys)))" by simp
  then show ?thesis by (rule cycle_float32)
qed

lemma step_surround:
  assumes "surround_capable (loop (step M a sys))"
  shows "surround_capable (loop sys)"
  using step_cases [of M a sys]
proof
  assume "loop (step M a sys) = loop sys"
  with assms show ?thesis by simp
next
  assume "\<exists>e. loop (step M a sys) = snd (cycle M e (loop sys))"
  then obtain e where "loop (step M a sys) = snd (cycle M e (loop sys))" ..
  with assms have "surround_capable (snd (cycle M e (loop sys)))" by simp
  then show ?thesis by (rule cycle_surround)
qed

lemma exec_append: "exec M (as @ bs) sys = exec M bs (exec M as sys)"
  by (simp add: exec_def)

lemma exec_float32: "float32_capable (loop (exec M acts sys)) \<Longrightarrow> float32_capable (loop sys)"
proof (induction acts arbitrary: sys)
  case Nil
  then show ?case by (simp add: exec_def)
next
  case (Cons a acts)
  then have "float32_capable (loop (step M a sys))" by (simp add: exec_def)
  then show ?case by (rule step_float32)
qed

lemma exec_surround: "surround_capable (loop (exec M acts sys)) \<Longrightarrow> surround_capable (loop sys)"
proof (induction acts arbitrary: sys)
  case Nil
  then show ?case by (simp add: exec_def)
next
  case (Cons a acts)
  then have "surround_capable (loop (step M a sys))" by (simp add: exec_def)
  then show ?case by (rule step_surround)
qed

lemma exec_Cons: "exec M (a # acts) sys = exec M acts (step M a sys)"
  by (simp add: exec_def)

lemma exec_Nil: "exec M [] sys = sys"
  by (simp add: exec_def)

lemma Start_fields [simp]:
  "loop (Start c ev) = SoundLoop_init c"
  "pc (Start c ev) = AtHead"
  "run_thread (Start c ev) = True"
  "sync_event (Start c ev) = ev"
  by (simp_all add: Start_def)

lemma loop_step_AtHead [simp]:
  "pc sys = AtHead \<Longrightarrow>
   loop_step M e sys = (if run_thread sys then sys\<lparr>pc := InBody\<rparr> else sys\<lparr>pc := Returned\<rparr>)"
  by (simp add: loop_step_def)

lemma loop_step_InBody:
  "pc sys = InBody \<Longrightarrow>
   loop_step M e sys =
     sys\<lparr>loop := snd (cycle M e (loop sys)),
         pc := (case fst (cycle M e (loop sys)) of
                  Waited \<Rightarrow> AtWait | Faulted \<Rightarrow> Aborted | _ \<Rightarrow> AtHead)\<rparr>"
  by (simp add: loop_step_def split: prod.splits outcome.splits)

lemma loop_step_AtWait [simp]:
  "pc sys = AtWait \<Longrightarrow> loop_step M e sys = event_wait sys"
  by (simp add: loop_step_def)

lemma loop_step_done [simp]:
  "pc sys = Returned \<or> pc sys = Aborted \<Longrightarrow> loop_step M e sys = sys"
  by (auto simp add: loop_step_def)

lemma example_rejected:
  "\<not> float32_capable
       (loop (exec 256 [Loop example_env, Loop (example_env\<lparr>e_buffer_data := AL_INVALID_ENUM\<rparr>)]
                (Start example_configuration False)))"
  by (simp add: exec_Cons exec_Nil loop_step_InBody cycle_flags [where n = 48]
      example_state_def [symmetric] reclaim_al_error)

subsection \<open>The write and queue calls of an iteration\<close>

lemma wq_reclaim [simp]:
  "filter is_write_or_queue (trace (reclaim e s)) = filter is_write_or_queue (trace s)"
  by (simp add: reclaim_trace)

lemma wq_buffer_data:
  "filter is_write_or_queue (trace (buffer_data e n b s)) =
     filter is_write_or_queue (trace s) @
       [BufferData (nextBuffer s) (chosen_format s)
          (if surround_capable s
           then (if float32_capable s then Floats (zero_lfe n (dpl2_buffer n e))
                 else Shorts (map float_to_short (zero_lfe n (dpl2_buffer n e))))
           else (if float32_capable s then Floats b else Shorts (map float_to_short b)))]"
  by (simp add: buffer_data_def buffer_stereo_trace buffer_surround_trace chosen_format_def)

lemma wq_submit:
  "filter is_write_or_queue (trace (snd (submit e n b s))) =
     filter is_write_or_queue (trace s) @
       [BufferData (nextBuffer s) (chosen_format s)
          (if surround_capable s
           then (if float32_capable s then Floats (zero_lfe n (dpl2_buffer n e))
                 else Shorts (map float_to_short (zero_lfe n (dpl2_buffer n e))))
           else (if float32_capable s then Floats b else Shorts (map float_to_short b))),
        QueueBuffers (nextBuffer s)]"
  by (simp add: submit_def Let_def queue_buffer_trace ensure_playing_trace wq_buffer_data)

lemma wq_render:
  "filter is_write_or_queue (trace (snd (render M n e s))) =
     filter is_write_or_queue (trace s) @
       (if drained_count M e s \<le> (if surround_capable s then 240 else 0) then []
        else [BufferData (nextBuffer s) (chosen_format s) (selected_payload M e s),
              QueueBuffers (nextBuffer s)])"
  by (simp add: render_def Let_def split_def wq_submit read_rate_trace apply_tempo_trace
      drained_count_def selected_payload_def chosen_format_def)

lemma wq_cycle:
  assumes "renders n e s"
  shows "filter is_write_or_queue (cycle_events M e s) =
       (if drained_count M e s \<le> (if surround_capable s then 240 else 0) then []
        else [BufferData (nextBuffer s) (chosen_format s) (selected_payload M e s),
              QueueBuffers (nextBuffer s)])"
proof (rule cycle_events_filter)
  let ?s2 = "reclaim e (al_call (e_get_processed e) s)"
  have t: "filter is_write_or_queue (trace ?s2) = filter is_write_or_queue (trace s)"
    by simp
  have d: "drained_count M e ?s2 = drained_count M e s"
    by (simp add: drained_count_def)
  have c: "chosen_format ?s2 = chosen_format s"
    by (simp add: chosen_format_def)
  have p: "selected_payload M e ?s2 = selected_payload M e s"
    by (simp add: selected_payload_def Let_def)
  show "filter is_write_or_queue (trace (snd (cycle M e s))) =
          filter is_write_or_queue (trace s) @
       (if drained_count M e s \<le> (if surround_capable s then 240 else 0) then []
        else [BufferData (nextBuffer s) (chosen_format s) (selected_payload M e s),
              QueueBuffers (nextBuffer s)])"
    unfolding cycle_renders [OF assms] wq_render t d c p by simp
qed

subsection \<open>The counters across an iteration\<close>

lemma submit_nextBuffer:
  "numBuffers s \<noteq> 0 \<Longrightarrow>
   nextBuffer (snd (submit e n b s)) = (nextBuffer s + 1) mod numBuffers s"
  by (simp add: submit_def Let_def)

lemma render_counters:
  assumes "(if surround_capable s then 240 else 0) < drained_count M e s"
  shows "numBuffersQueued (snd (render M n e s)) = numBuffersQueued s + 1"
    and "numBuffers s \<noteq> 0 \<Longrightarrow>
         nextBuffer (snd (render M n e s)) = (nextBuffer s + 1) mod numBuffers s"
  using assms
  by (simp_all add: render_def Let_def split_def drained_count_def submit_nextBuffer)

lemma render_skip:
  assumes "drained_count M e s \<le> (if surround_capable s then 240 else 0)"
  shows "numBuffersQueued (snd (render M n e s)) = numBuffersQueued s"
    and "nextBuffer (snd (render M n e s)) = nextBuffer s"
    and "surround_capable (snd (render M n e s)) = surround_capable s"
    and "float32_capable (snd (render M n e s)) = float32_capable s"
  using assms
  by (simp_all add: render_def Let_def split_def drained_count_def)

lemma cycle_counters:
  assumes "renders n e s"
      and "(if surround_capable s then 240 else 0) < drained_count M e s"
  shows "numBuffersQueued (snd (cycle M e s)) = numBuffersQueued s - processed e + 1"
    and "numBuffers s \<noteq> 0 \<Longrightarrow>
         nextBuffer (snd (cycle M e s)) = (nextBuffer s + 1) mod numBuffers s"
proof -
  let ?s2 = "reclaim e (al_call (e_get_processed e) s)"
  have d: "(if surround_capable ?s2 then 240 else 0) < drained_count M e ?s2"
    using assms(2) by (simp add: drained_count_def)
  show "numBuffersQueued (snd (cycle M e s)) = numBuffersQueued s - processed e + 1"
    unfolding cycle_renders [OF assms(1)] render_counters(1) [OF d] by simp
  show "nextBuffer (snd (cycle M e s)) = (nextBuffer s + 1) mod numBuffers s"
    if "numBuffers s \<noteq> 0"
  proof -
    from that have "numBuffers ?s2 \<noteq> 0" by simp
    from render_counters(2) [OF d this] show ?thesis
      unfolding cycle_renders [OF assms(1)] by simp
  qed
qed

lemma engine_cycle_idle:
  assumes "\<not> (\<exists>n. renders n e s)"
  shows "filter is_engine_call (cycle_events M e s) = []"
proof (rule cycle_events_filter)
  show "filter is_engine_call (trace (snd (cycle M e s))) = filter is_engine_call (trace s) @ []"
  proof (cases "must_wait e s")
    case True
    then show ?thesis by (simp add: cycle_waits)
  next
    case False
    with assms have "num_samples_to_render (ticks_per_second e) (aid_sample_rate e) = None"
      by (simp add: renders_def)
    with False show ?thesis by (simp add: cycle_def Let_def must_wait_def)
  qed
qed

lemma engine_cycle_slow:
  assumes "effective_rate e \<le> 0.10"
  shows "filter is_engine_call (cycle_events M e s) =
           (case num_samples_to_render (ticks_per_second e) (aid_sample_rate e) of
              None \<Rightarrow> []
            | Some n \<Rightarrow> if must_wait e s then []
                        else [PutSamples (pull M n e), ReceiveSamples (M * unat (numBuffers s))])"
proof (cases "\<exists>n. renders n e s")
  case True
  then obtain n where n: "renders n e s" ..
  then show ?thesis using assms by (simp add: engine_cycle [OF n] renders_def)
next
  case False
  then show ?thesis
    by (auto simp add: engine_cycle_idle renders_def split: option.splits)
qed

subsection \<open>The writes, queue calls and log lines of an iteration on the stereo 16-bit path\<close>

lemma wql_reclaim:
  "filter is_write_queue_or_log (trace (reclaim e s)) =
     filter is_write_queue_or_log (trace s) @
       (if processed e \<noteq> 0
        then error_log ''unqueuing buffers'' (al_error (al_call (e_unqueue e) s)) else [])"
  by (simp add: reclaim_trace)

lemma submit_trace:
  "trace (snd (submit e n b s)) =
     trace (buffer_data e n b s) @
     QueueBuffers (nextBuffer s) #
     error_log ''queuing buffers'' (al_error (al_call (e_queue e) (buffer_data e n b s))) @
     (if numBuffers s \<noteq> 0 \<and> src_state e \<noteq> AL_PLAYING
      then SourcePlay #
           error_log ''occurred resuming playback''
             (if e_get_state e = AL_NO_ERROR then e_play e else e_get_state e)
      else [])"
  by (simp add: submit_def Let_def queue_buffer_trace ensure_playing_trace)

lemma wql_submit_stereo16:
  assumes "\<not> surround_capable s" and "\<not> float32_capable s"
  shows "filter is_write_queue_or_log (trace (snd (submit e n b s))) =
     filter is_write_queue_or_log (trace s) @
       [BufferData (nextBuffer s) AL_FORMAT_STEREO16 (Shorts (map float_to_short b)),
        QueueBuffers (nextBuffer s)] @
       error_log ''queuing buffers'' (al_error (al_call (e_queue e) (al_call (e_buffer_data e) s))) @
       (if numBuffers s \<noteq> 0 \<and> src_state e \<noteq> AL_PLAYING
        then error_log ''occurred resuming playback''
               (if e_get_state e = AL_NO_ERROR then e_play e else e_get_state e)
        else [])"
  using assms
  by (simp add: submit_trace buffer_data_def buffer_stereo_trace buffer_stereo_def
      alBufferData_def)

lemma render_al_error_before_write:
  "al_error (emit ev (apply_tempo r (snd (read_rate e (emit ev1 (emit ev2 s)))))) = al_error s"
  by simp

lemma wql_render_stereo16:
  assumes "\<not> surround_capable s" and "\<not> float32_capable s"
      and "0 < drained_count M e s"
  shows "filter is_write_queue_or_log (trace (snd (render M n e s))) =
     filter is_write_queue_or_log (trace s) @
       [BufferData (nextBuffer s) AL_FORMAT_STEREO16 (selected_payload M e s),
        QueueBuffers (nextBuffer s)] @
       error_log ''queuing buffers'' (al_error (al_call (e_queue e) (al_call (e_buffer_data e) s))) @
       (if numBuffers s \<noteq> 0 \<and> src_state e \<noteq> AL_PLAYING
        then error_log ''occurred resuming playback''
               (if e_get_state e = AL_NO_ERROR then e_play e else e_get_state e)
        else [])"
  using assms
  by (simp add: render_def Let_def split_def drained_count_def wql_submit_stereo16
      read_rate_trace apply_tempo_trace selected_payload_def)


lemma wql_cycle_stereo16:
  assumes "renders n e s" and "0 < drained_count M e s"
      and "\<not> surround_capable s" and "\<not> float32_capable s"
      and "al_error s = AL_NO_ERROR" and "e_get_processed e = AL_NO_ERROR"
      and "e_unqueue e = AL_NO_ERROR"
  shows "filter is_write_queue_or_log (cycle_events M e s) =
       [BufferData (nextBuffer s) AL_FORMAT_STEREO16 (selected_payload M e s),
        QueueBuffers (nextBuffer s)] @
       error_log ''queuing buffers''
         (if e_buffer_data e = AL_NO_ERROR then e_queue e else e_buffer_data e) @
       (if numBuffers s \<noteq> 0 \<and> src_state e \<noteq> AL_PLAYING
        then error_log ''occurred resuming playback''
               (if e_get_state e = AL_NO_ERROR then e_play e else e_get_state e)
        else [])"
proof (rule cycle_events_filter)
  let ?s2 = "reclaim e (al_call (e_get_processed e) s)"
  have t: "filter is_write_queue_or_log (trace ?s2) = filter is_write_queue_or_log (trace s)"
    using assms(5-7) by (simp add: wql_reclaim error_log_def)
  have a: "al_error ?s2 = AL_NO_ERROR"
    using assms(5,6) by (simp add: reclaim_al_error)
  have p: "selected_payload M e ?s2 = selected_payload M e s"
    by (simp add: selected_payload_def Let_def)
  have f: "\<not> surround_capable ?s2" "\<not> float32_capable ?s2" "0 < drained_count M e ?s2"
    using assms(2-4) by (simp_all add: drained_count_def)
  show "filter is_write_queue_or_log (trace (snd (cycle M e s))) =
          filter is_write_queue_or_log (trace s) @
       [BufferData (nextBuffer s) AL_FORMAT_STEREO16 (selected_payload M e s),
        QueueBuffers (nextBuffer s)] @
       error_log ''queuing buffers''
         (if e_buffer_data e = AL_NO_ERROR then e_queue e else e_buffer_data e) @
       (if numBuffers s \<noteq> 0 \<and> src_state e \<noteq> AL_PLAYING
        then error_log ''occurred resuming playback''
               (if e_get_state e = AL_NO_ERROR then e_play e else e_get_state e)
        else [])"
    unfolding cycle_renders [OF assms(1)] wql_render_stereo16 [OF f] t p
    by (simp add: a)
qed

subsection \<open>The queued count never exceeds the number of buffers\<close>

lemma cycle_events_wait: "must_wait e s \<Longrightarrow> cycle_events M e s = [WaitEvent]"
  by (simp add: cycle_events_def cycle_waits)

lemma queue_needs_room:
  assumes "QueueBuffers b \<in> set (cycle_events M e s)"
  shows "\<not> must_wait e s"
proof
  assume "must_wait e s"
  then have "cycle_events M e s = [WaitEvent]" by (rule cycle_events_wait)
  with assms show False by simp
qed

lemma word_room:
  fixes q p N :: u32
  assumes "q \<le> N" and "p \<le> q" and "q \<noteq> N \<or> p \<noteq> 0"
  shows "q - p + 1 \<le> N"
proof -
  have "unat q \<le> unat N" "unat p \<le> unat q"
    using assms(1,2) by (simp_all add: word_le_nat_alt)
  moreover have "unat q \<noteq> unat N \<or> unat p \<noteq> 0"
    using assms(3) word_unat_eq_iff [of q N] unat_eq_0 [of p] by blast
  moreover have "unat (q - p) = unat q - unat p"
    using assms(2) by (simp add: unat_sub)
  ultimately have lt: "unat (q - p) < unat N" by arith
  then have "q - p < N" by (simp add: word_less_nat_alt)
  then show ?thesis by (rule inc_le)
qed

lemma step_numBuffers [simp]: "numBuffers (loop (step M a sys)) = numBuffers (loop sys)"
  using step_cases [of M a sys] by auto

lemma reports_consistent_Cons:
  "reports_consistent M (a # acts) sys \<longleftrightarrow>
     reports_consistent M [a] sys \<and> reports_consistent M acts (step M a sys)"
  by (cases a) simp_all

lemma exec_numBuffers [simp]: "numBuffers (loop (exec M acts sys)) = numBuffers (loop sys)"
  by (induction acts arbitrary: sys) (simp_all add: exec_Nil exec_Cons)

lemma example_first_iteration:
  "fst (cycle 256 example_env example_state) = Submitted"
  "numBuffersQueued (snd (cycle 256 example_env example_state)) = 1"
proof -
  have r: "renders 48 example_env example_state" by simp
  have d: "(if surround_capable example_state then 240 else 0)
             < drained_count 256 example_env example_state" by simp
  show "fst (cycle 256 example_env example_state) = Submitted"
    by (simp add: cycle_outcome must_wait_def example_timers)
  show "numBuffersQueued (snd (cycle 256 example_env example_state)) = 1"
    using cycle_counters(1) [OF r d] by simp
qed

subsection \<open>The thread after a stop\<close>

lemma step_pc_other [simp]:
  "pc (step M ClearRunFlag sys) = pc sys"
  "pc (step M SetSyncEvent sys) = pc sys"
  by simp_all

lemma loop_step_run_thread [simp]: "run_thread (loop_step M e sys) = run_thread sys"
  by (cases "pc sys") (simp_all add: loop_step_InBody event_wait_def)

lemma step_run_thread: "\<not> run_thread sys \<Longrightarrow> \<not> run_thread (step M a sys)"
  by (cases a) simp_all

lemma exec_run_thread: "\<not> run_thread sys \<Longrightarrow> \<not> run_thread (exec M acts sys)"
  by (induction acts arbitrary: sys) (simp_all add: exec_Nil exec_Cons step_run_thread)

lemma loop_step_signalled:
  assumes "stop_signalled sys"
  shows "stop_signalled (loop_step M e sys)
         \<and> moves_left (pc (loop_step M e sys)) \<le> moves_left (pc sys) - 1"
proof (cases "pc sys")
  case AtHead
  with assms show ?thesis by (simp add: stop_signalled_def)
next
  case InBody
  with assms show ?thesis
    by (cases "fst (cycle M e (loop sys))") (simp_all add: stop_signalled_def loop_step_InBody)
next
  case AtWait
  with assms show ?thesis by (simp add: stop_signalled_def event_wait_def)
next
  case Returned
  with assms show ?thesis by (simp add: stop_signalled_def)
next
  case Aborted
  with assms show ?thesis by (simp add: stop_signalled_def)
qed

lemma step_signalled:
  assumes "stop_signalled sys"
  shows "stop_signalled (step M a sys)
         \<and> moves_left (pc (step M a sys)) \<le> moves_left (pc sys) - (if is_loop a then 1 else 0)"
proof (cases a)
  case (Loop e)
  with loop_step_signalled [OF assms, of M e] show ?thesis by simp
next
  case ClearRunFlag
  with assms show ?thesis by (simp add: stop_signalled_def)
next
  case SetSyncEvent
  with assms show ?thesis by (simp add: stop_signalled_def)
qed

lemma exec_signalled:
  assumes "stop_signalled sys"
  shows "moves_left (pc (exec M acts sys)) \<le> moves_left (pc sys) - length (filter is_loop acts)"
  using assms
proof (induction acts arbitrary: sys)
  case Nil
  then show ?case by (simp add: exec_Nil)
next
  case (Cons a acts)
  from step_signalled [OF Cons.prems, of M a]
  have s: "stop_signalled (step M a sys)"
    and m: "moves_left (pc (step M a sys)) \<le> moves_left (pc sys) - (if is_loop a then 1 else 0)"
    by simp_all
  from Cons.IH [OF s] m show ?case by (auto simp add: exec_Cons split: if_splits)
qed

lemma moves_left_bound: "moves_left p \<le> 3"
  by (cases p) simp_all

lemma moves_left_0: "moves_left p = 0 \<longleftrightarrow> p = Returned \<or> p = Aborted"
  by (cases p) simp_all

lemma stop_then_exit:
  assumes "3 \<le> length (filter is_loop post)"
  shows "pc (exec M (pre @ ClearRunFlag # mid @ SetSyncEvent # post) sys) = Returned
         \<or> pc (exec M (pre @ ClearRunFlag # mid @ SetSyncEvent # post) sys) = Aborted"
proof -
  let ?a = "exec M pre sys"
  let ?b = "exec M mid (step M ClearRunFlag ?a)"
  let ?c = "step M SetSyncEvent ?b"
  have "\<not> run_thread ?b" by (rule exec_run_thread) simp
  then have sig: "stop_signalled ?c" by (simp add: stop_signalled_def)
  have e: "exec M (pre @ ClearRunFlag # mid @ SetSyncEvent # post) sys = exec M post ?c"
    by (simp add: exec_append exec_Cons)
  have "moves_left (pc (exec M post ?c)) \<le> moves_left (pc ?c) - length (filter is_loop post)"
    using sig by (rule exec_signalled)
  also have "\<dots> \<le> 3 - length (filter is_loop post)"
    using moves_left_bound [of "pc ?c"] by simp
  also have "\<dots> = 0" using assms by simp
  finally have "moves_left (pc (exec M post ?c)) = 0" by simp
  then show ?thesis unfolding e by (simp add: moves_left_0)
qed


lemma cycle_faulted:
  "fst (cycle M e s) = Faulted \<Longrightarrow>
   num_samples_to_render (ticks_per_second e) (aid_sample_rate e) = None \<or> numBuffers s = 0"
  by (simp add: cycle_outcome split: if_splits)

lemma step_not_aborted:
  assumes "pc sys \<noteq> Aborted" and "timers_nonzero a" and "numBuffers (loop sys) \<noteq> 0"
  shows "pc (step M a sys) \<noteq> Aborted"
proof (cases a)
  case (Loop e)
  show ?thesis
  proof (cases "pc sys")
    case InBody
    from assms(2,3) Loop have "fst (cycle M e (loop sys)) \<noteq> Faulted"
      using cycle_faulted [of M e "loop sys"] by auto
    with InBody Loop show ?thesis
      by (cases "fst (cycle M e (loop sys))") (simp_all add: loop_step_InBody)
  next
    case AtHead
    with Loop show ?thesis by simp
  next
    case AtWait
    with Loop show ?thesis by (simp add: event_wait_def)
  next
    case Returned
    with Loop show ?thesis by simp
  next
    case Aborted
    with assms(1) show ?thesis by simp
  qed
next
  case ClearRunFlag
  with assms(1) show ?thesis by simp
next
  case SetSyncEvent
  with assms(1) show ?thesis by simp
qed

lemma exec_not_aborted:
  assumes "pc sys \<noteq> Aborted" and "\<forall>a \<in> set acts. timers_nonzero a"
      and "numBuffers (loop sys) \<noteq> 0"
  shows "pc (exec M acts sys) \<noteq> Aborted"
  using assms
proof (induction acts arbitrary: sys)
  case Nil
  then show ?case by (simp add: exec_Nil)
next
  case (Cons a acts)
  have "pc (step M a sys) \<noteq> Aborted"
    using Cons.prems by (intro step_not_aborted) simp_all
  moreover have "numBuffers (loop (step M a sys)) \<noteq> 0"
    using Cons.prems(3) by simp
  ultimately show ?case using Cons.IH [of "step M a sys"] Cons.prems(2)
    by (simp add: exec_Cons)
qed


lemma waited_iff: "fst (cycle M e s) = Waited \<longleftrightarrow> must_wait e s"
  by (simp add: cycle_outcome must_wait_def)

lemma body_to_wait:
  assumes "pc sys = InBody"
  shows "pc (step M (Loop e) sys) = AtWait \<longleftrightarrow> must_wait e (loop sys)"
  using assms waited_iff [of M e "loop sys"]
  by (cases "fst (cycle M e (loop sys))") (simp_all add: loop_step_InBody)

subsection \<open>The count read off the calls\<close>

lemma count_history_nonempty [simp]: "count_history c evs \<noteq> []"
  by (cases evs) simp_all

lemma count_history_last: "last (count_history c evs) = fold count_after evs c"
  by (induction evs arbitrary: c) simp_all

lemma count_history_append:
  "set (count_history c (xs @ ys)) =
     set (count_history c xs) \<union> set (count_history (fold count_after xs c) ys)"
proof (induction xs arbitrary: c)
  case Nil
  show ?case by (cases ys) auto
next
  case (Cons x xs)
  then show ?case by auto
qed

lemma count_after_other: "\<not> is_unqueue_or_queue ev \<Longrightarrow> count_after ev c = c"
  by (cases ev) simp_all

lemma count_history_head: "c \<in> set (count_history c evs)"
  by (cases evs) simp_all

lemma count_history_filter:
  "set (count_history c (filter is_unqueue_or_queue evs)) = set (count_history c evs)"
proof (induction evs arbitrary: c)
  case Nil
  show ?case by simp
next
  case (Cons ev evs)
  show ?case
  proof (cases "is_unqueue_or_queue ev")
    case True
    with Cons show ?thesis by simp
  next
    case False
    with Cons [of c] count_history_head [of c evs] show ?thesis
      by (auto simp: count_after_other)
  qed
qed

lemma fold_count_filter:
  "fold count_after (filter is_unqueue_or_queue evs) c = fold count_after evs c"
  by (induction evs arbitrary: c) (simp_all add: count_after_other)

lemma uq_error_log [simp]: "filter is_unqueue_or_queue (error_log d x) = []"
  by (simp add: error_log_def)

lemma uq_reclaim:
  "filter is_unqueue_or_queue (trace (reclaim e s)) =
     filter is_unqueue_or_queue (trace s) @
       (if processed e \<noteq> 0 then [UnqueueBuffers (processed e)] else [])"
  by (simp add: reclaim_trace)

lemma uq_buffer_data [simp]:
  "filter is_unqueue_or_queue (trace (buffer_data e n b s)) =
     filter is_unqueue_or_queue (trace s)"
  by (simp add: buffer_data_def buffer_stereo_trace buffer_surround_trace)

lemma uq_submit:
  "filter is_unqueue_or_queue (trace (snd (submit e n b s))) =
     filter is_unqueue_or_queue (trace s) @ [QueueBuffers (nextBuffer s)]"
  by (simp add: submit_trace)

lemma uq_render:
  "filter is_unqueue_or_queue (trace (snd (render M n e s))) =
     filter is_unqueue_or_queue (trace s) @
       (if drained_count M e s \<le> (if surround_capable s then 240 else 0) then []
        else [QueueBuffers (nextBuffer s)])"
  by (simp add: render_def Let_def split_def uq_submit read_rate_trace apply_tempo_trace
      drained_count_def)

lemma uq_cycle:
  "filter is_unqueue_or_queue (cycle_events M e s) =
     (if must_wait e s then []
      else (if processed e \<noteq> 0 then [UnqueueBuffers (processed e)] else []) @
           (if num_samples_to_render (ticks_per_second e) (aid_sample_rate e) \<noteq> None
               \<and> (if surround_capable s then 240 else 0) < drained_count M e s
            then [QueueBuffers (nextBuffer s)] else []))"
proof (cases "must_wait e s")
  case True
  then show ?thesis by (simp add: cycle_events_wait)
next
  case False
  let ?s2 = "reclaim e (al_call (e_get_processed e) s)"
  show ?thesis
  proof (cases "num_samples_to_render (ticks_per_second e) (aid_sample_rate e)")
    case None
    have "filter is_unqueue_or_queue (cycle_events M e s) =
            (if processed e \<noteq> 0 then [UnqueueBuffers (processed e)] else [])"
    proof (rule cycle_events_filter)
      have "snd (cycle M e s) = ?s2"
        using False None by (auto simp add: cycle_def Let_def must_wait_def)
      then show "filter is_unqueue_or_queue (trace (snd (cycle M e s))) =
            filter is_unqueue_or_queue (trace s) @
            (if processed e \<noteq> 0 then [UnqueueBuffers (processed e)] else [])"
        by (simp add: uq_reclaim)
    qed
    with False None show ?thesis by simp
  next
    case (Some n)
    with False have r: "renders n e s" by (simp add: renders_def)
    have d: "drained_count M e ?s2 = drained_count M e s"
      by (simp add: drained_count_def)
    have "filter is_unqueue_or_queue (cycle_events M e s) =
            (if processed e \<noteq> 0 then [UnqueueBuffers (processed e)] else []) @
            (if drained_count M e s \<le> (if surround_capable s then 240 else 0) then []
             else [QueueBuffers (nextBuffer s)])"
    proof (rule cycle_events_filter)
      show "filter is_unqueue_or_queue (trace (snd (cycle M e s))) =
            filter is_unqueue_or_queue (trace s) @
            (if processed e \<noteq> 0 then [UnqueueBuffers (processed e)] else []) @
            (if drained_count M e s \<le> (if surround_capable s then 240 else 0) then []
             else [QueueBuffers (nextBuffer s)])"
        unfolding cycle_renders [OF r] uq_render uq_reclaim d by simp
    qed
    with False Some show ?thesis by auto
  qed
qed


lemma cycle_queued_exact:
  "numBuffersQueued (snd (cycle M e s)) =
     (if must_wait e s then numBuffersQueued s
      else if num_samples_to_render (ticks_per_second e) (aid_sample_rate e) \<noteq> None
               \<and> (if surround_capable s then 240 else 0) < drained_count M e s
      then numBuffersQueued s - processed e + 1
      else numBuffersQueued s - processed e)"
proof (cases "must_wait e s")
  case True
  then show ?thesis by (simp add: cycle_waits)
next
  case False
  let ?s2 = "reclaim e (al_call (e_get_processed e) s)"
  show ?thesis
  proof (cases "num_samples_to_render (ticks_per_second e) (aid_sample_rate e)")
    case None
    with False show ?thesis by (auto simp add: cycle_def Let_def must_wait_def)
  next
    case (Some n)
    with False have r: "renders n e s" by (simp add: renders_def)
    show ?thesis
    proof (cases "drained_count M e ?s2 \<le> (if surround_capable ?s2 then 240 else 0)")
      case True
      from render_skip(1) [OF True] True False Some show ?thesis
        by (simp add: cycle_renders [OF r] drained_count_def)
    next
      case f: False
      then have "(if surround_capable ?s2 then 240 else 0) < drained_count M e ?s2" by simp
      from render_counters(1) [OF this] f False Some show ?thesis
        by (simp add: cycle_renders [OF r] drained_count_def)
    qed
  qed
qed

lemma uq_history:
  "set (count_history q ((if p \<noteq> 0 then [UnqueueBuffers p] else [])
                          @ (if c then [QueueBuffers b] else []))) =
     {q, q - p} \<union> (if c then {q - p + 1} else {})"
  by auto

lemma uq_fold:
  "fold count_after ((if p \<noteq> 0 then [UnqueueBuffers p] else [])
                      @ (if c then [QueueBuffers b] else [])) q =
     (if c then q - p + 1 else q - p)"
  by auto

lemma cycle_counted:
  assumes inv: "\<forall>x \<in> set (count_history 0 (trace s)). x \<le> numBuffers s"
      and eq: "numBuffersQueued s = last (count_history 0 (trace s))"
      and rep: "processed e \<le> numBuffersQueued s"
  shows "\<forall>x \<in> set (count_history 0 (trace (snd (cycle M e s)))). x \<le> numBuffers s"
    and "numBuffersQueued (snd (cycle M e s)) =
           last (count_history 0 (trace (snd (cycle M e s))))"
proof -
  let ?q = "numBuffersQueued s"
  let ?p = "processed e"
  let ?c = "num_samples_to_render (ticks_per_second e) (aid_sample_rate e) \<noteq> None
               \<and> (if surround_capable s then 240 else 0) < drained_count M e s"
  let ?evs = "cycle_events M e s"
  have f0: "fold count_after (trace s) 0 = ?q"
    using eq by (simp add: count_history_last)
  have qN: "?q \<le> numBuffers s"
    using inv eq last_in_set [OF count_history_nonempty, of 0 "trace s"] by simp
  have sub: "?q - ?p \<le> numBuffers s"
    using word_sub_le [OF rep] qN by simp
  have h: "set (count_history 0 (trace (snd (cycle M e s)))) =
             set (count_history 0 (trace s))
             \<union> set (count_history ?q (filter is_unqueue_or_queue ?evs))"
    by (simp add: cycle_trace count_history_append f0 count_history_filter)
  have l: "last (count_history 0 (trace (snd (cycle M e s)))) =
             fold count_after (filter is_unqueue_or_queue ?evs) ?q"
    by (simp add: cycle_trace count_history_last f0 fold_count_filter)
  show "\<forall>x \<in> set (count_history 0 (trace (snd (cycle M e s)))). x \<le> numBuffers s"
  proof (cases "must_wait e s")
    case True
    with h inv qN show ?thesis by (simp add: uq_cycle)
  next
    case False
    then have room: "?q \<noteq> numBuffers s \<or> ?p \<noteq> 0"
      by (auto simp: must_wait_def)
    have "?q - ?p + 1 \<le> numBuffers s"
      using qN rep room by (rule word_room)
    with False h inv qN sub show ?thesis
      unfolding uq_cycle by (simp only: if_False uq_history) auto
  qed
  show "numBuffersQueued (snd (cycle M e s)) =
           last (count_history 0 (trace (snd (cycle M e s))))"
  proof (cases "must_wait e s")
    case True
    then show ?thesis unfolding l by (simp add: uq_cycle cycle_queued_exact)
  next
    case False
    then show ?thesis unfolding l uq_cycle cycle_queued_exact
      by (simp only: if_False uq_fold)
  qed
qed


lemma step_counted:
  assumes inv: "\<forall>x \<in> set (count_history 0 (trace (loop sys))). x \<le> numBuffers (loop sys)"
      and eq: "numBuffersQueued (loop sys) = last (count_history 0 (trace (loop sys)))"
      and rep: "reports_consistent M [a] sys"
  shows "(\<forall>x \<in> set (count_history 0 (trace (loop (step M a sys)))).
            x \<le> numBuffers (loop (step M a sys)))
         \<and> numBuffersQueued (loop (step M a sys)) =
             last (count_history 0 (trace (loop (step M a sys))))"
proof (cases a)
  case (Loop e)
  show ?thesis
  proof (cases "pc sys = InBody")
    case True
    with rep Loop have p: "processed e \<le> numBuffersQueued (loop sys)" by simp
    from cycle_counted [OF inv eq p, of M] True Loop show ?thesis
      by (simp add: loop_step_InBody)
  next
    case False
    then have "loop (loop_step M e sys) = loop sys"
      by (cases "pc sys") (simp_all add: event_wait_def)
    with inv eq Loop show ?thesis by simp
  qed
next
  case ClearRunFlag
  with inv eq show ?thesis by simp
next
  case SetSyncEvent
  with inv eq show ?thesis by simp
qed

lemma exec_counted:
  assumes "\<forall>x \<in> set (count_history 0 (trace (loop sys))). x \<le> numBuffers (loop sys)"
      and "numBuffersQueued (loop sys) = last (count_history 0 (trace (loop sys)))"
      and "reports_consistent M acts sys"
  shows "(\<forall>x \<in> set (count_history 0 (trace (loop (exec M acts sys)))).
            x \<le> numBuffers (loop (exec M acts sys)))
         \<and> numBuffersQueued (loop (exec M acts sys)) =
             last (count_history 0 (trace (loop (exec M acts sys))))"
  using assms
proof (induction acts arbitrary: sys)
  case Nil
  then show ?case by (simp add: exec_Nil)
next
  case (Cons a acts)
  from Cons.prems(3) have one: "reports_consistent M [a] sys"
    and rest: "reports_consistent M acts (step M a sys)"
    using reports_consistent_Cons [of M a acts sys] by simp_all
  from step_counted [OF Cons.prems(1,2) one]
  have i: "\<forall>x \<in> set (count_history 0 (trace (loop (step M a sys)))).
            x \<le> numBuffers (loop (step M a sys))"
    and e: "numBuffersQueued (loop (step M a sys)) =
             last (count_history 0 (trace (loop (step M a sys))))"
    by simp_all
  from Cons.IH [OF i e rest] show ?case by (simp add: exec_Cons)
qed

lemma init_fields [simp]:
  "numBuffers (SoundLoop_init c) = word_of_int (iLatency c + 2)"
  "numBuffersQueued (SoundLoop_init c) = 0"
  "filter is_unqueue_or_queue (trace (SoundLoop_init c)) = []"
  by (simp_all add: SoundLoop_init_def engine_init_def setTempo_def Let_def)

lemma init_counted:
  "set (count_history 0 (trace (SoundLoop_init c))) = {0}"
  "last (count_history 0 (trace (SoundLoop_init c))) = 0"
proof -
  have "set (count_history 0 (trace (SoundLoop_init c))) =
          set (count_history 0 (filter is_unqueue_or_queue (trace (SoundLoop_init c))))"
    by (simp only: count_history_filter)
  then show "set (count_history 0 (trace (SoundLoop_init c))) = {0}" by simp
  have "last (count_history 0 (trace (SoundLoop_init c))) =
          fold count_after (filter is_unqueue_or_queue (trace (SoundLoop_init c))) 0"
    by (simp only: count_history_last fold_count_filter)
  then show "last (count_history 0 (trace (SoundLoop_init c))) = 0" by simp
qed

subsection \<open>The log of the stereo 16-bit path, whatever is pending\<close>

lemma first_error_flag: "al_error (al_call x s) = first_error (al_error s) x"
  by (simp add: first_error_def)

lemma pending_before_write_eq:
  "pending_before_write e s =
     (if processed e \<noteq> 0 then AL_NO_ERROR else first_error (al_error s) (e_get_processed e))"
  by (simp add: pending_before_write_def reclaim_al_error first_error_def)

lemma wql_cycle_stereo16_any:
  assumes "renders n e s" and "0 < drained_count M e s"
      and "\<not> surround_capable s" and "\<not> float32_capable s"
  shows "filter is_write_queue_or_log (cycle_events M e s) =
       (if processed e \<noteq> 0
        then error_log ''unqueuing buffers''
               (first_error (first_error (al_error s) (e_get_processed e)) (e_unqueue e))
        else []) @
       [BufferData (nextBuffer s) AL_FORMAT_STEREO16 (selected_payload M e s),
        QueueBuffers (nextBuffer s)] @
       error_log ''queuing buffers''
         (first_error (first_error (pending_before_write e s) (e_buffer_data e)) (e_queue e)) @
       (if numBuffers s \<noteq> 0 \<and> src_state e \<noteq> AL_PLAYING
        then error_log ''occurred resuming playback'' (first_error (e_get_state e) (e_play e))
        else [])"
proof (rule cycle_events_filter)
  let ?s1 = "al_call (e_get_processed e) s"
  let ?s2 = "reclaim e ?s1"
  have t: "filter is_write_queue_or_log (trace ?s2) =
             filter is_write_queue_or_log (trace s) @
             (if processed e \<noteq> 0
              then error_log ''unqueuing buffers''
                     (first_error (first_error (al_error s) (e_get_processed e)) (e_unqueue e))
              else [])"
    unfolding wql_reclaim first_error_flag by simp
  have p: "selected_payload M e ?s2 = selected_payload M e s"
    by (simp add: selected_payload_def Let_def)
  have f: "\<not> surround_capable ?s2" "\<not> float32_capable ?s2" "0 < drained_count M e ?s2"
    using assms(2-4) by (simp_all add: drained_count_def)
  have g: "(if e_get_state e = AL_NO_ERROR then e_play e else e_get_state e)
             = first_error (e_get_state e) (e_play e)"
    by (simp add: first_error_def)
  show "filter is_write_queue_or_log (trace (snd (cycle M e s))) =
          filter is_write_queue_or_log (trace s) @
       (if processed e \<noteq> 0
        then error_log ''unqueuing buffers''
               (first_error (first_error (al_error s) (e_get_processed e)) (e_unqueue e))
        else []) @
       [BufferData (nextBuffer s) AL_FORMAT_STEREO16 (selected_payload M e s),
        QueueBuffers (nextBuffer s)] @
       error_log ''queuing buffers''
         (first_error (first_error (pending_before_write e s) (e_buffer_data e)) (e_queue e)) @
       (if numBuffers s \<noteq> 0 \<and> src_state e \<noteq> AL_PLAYING
        then error_log ''occurred resuming playback'' (first_error (e_get_state e) (e_play e))
        else [])"
    unfolding cycle_renders [OF assms(1)] wql_render_stereo16 [OF f] t p g first_error_flag
      pending_before_write_def [symmetric]
    by simp
qed

section \<open>The claims\<close>

text \<open>
  C4. Whenever the tempo multiplier an iteration works with is above 10, the iteration
  hands that tempo to the engine and clears the engine next: among the engine calls of the
  iteration, \<^verbatim>\<open>setTempo(m)\<close> is followed directly by \<^verbatim>\<open>clear()\<close>, between the
  \<^verbatim>\<open>putSamples\<close> and the \<^verbatim>\<open>receiveSamples\<close> of that same iteration.
\<close>

theorem fast_tempo_clears_engine:
  assumes "renders n e s" and "effective_rate e > 10"
  shows "filter is_engine_call (cycle_events M e s) =
           [PutSamples (pull M n e), SetTempo (effective_rate e), ClearEngine,
            ReceiveSamples (M * unat (numBuffers s))]
         \<and> st_tempo (snd (cycle M e s)) = effective_rate e"
  using assms by (simp add: engine_cycle cycle_st_tempo)

theorem fast_tempo_clears_engine_witness:
  "renders 48 (example_env\<lparr>speed1 := 20\<rparr>) example_state
   \<and> effective_rate (example_env\<lparr>speed1 := 20\<rparr>) > 10
   \<and> filter is_engine_call (cycle_events 256 (example_env\<lparr>speed1 := 20\<rparr>) example_state) =
       [PutSamples [1 / 2, - 1 / 2], SetTempo 20, ClearEngine, ReceiveSamples 1024]
   \<and> st_tempo (snd (cycle 256 (example_env\<lparr>speed1 := 20\<rparr>) example_state)) = 20"
  using fast_tempo_clears_engine [of 48 "example_env\<lparr>speed1 := 20\<rparr>" example_state 256]
  by (simp add: effective_rate_def example_pull)

text \<open>
  C5. The capability flags only ever go down. Along any schedule of the audio thread and
  the other threads, a flag that is false after some prefix of the schedule is false after
  every longer one: no step of the loop sets \<open>float32_capable\<close> or \<open>surround_capable\<close>.
\<close>

theorem capability_downgrade_monotonic:
  "(\<not> float32_capable (loop (exec M before sys))
      \<longrightarrow> \<not> float32_capable (loop (exec M (before @ later) sys)))
   \<and> (\<not> surround_capable (loop (exec M before sys))
      \<longrightarrow> \<not> surround_capable (loop (exec M (before @ later) sys)))"
  using exec_float32 [of M later "exec M before sys"]
        exec_surround [of M later "exec M before sys"]
  by (auto simp: exec_append)

theorem capability_downgrade_monotonic_witness:
  "\<not> float32_capable
       (loop (exec 256 [Loop example_env, Loop (example_env\<lparr>e_buffer_data := AL_INVALID_ENUM\<rparr>)]
                (Start example_configuration False)))
   \<and> \<not> float32_capable
       (loop (exec 256 ([Loop example_env, Loop (example_env\<lparr>e_buffer_data := AL_INVALID_ENUM\<rparr>)]
                        @ [Loop example_env, Loop example_env, Loop example_env])
                (Start example_configuration False)))
   \<and> \<not> surround_capable
       (loop (exec 256 [Loop example_env, Loop (example_env\<lparr>e_buffer_data := AL_INVALID_ENUM\<rparr>)]
                (Start example_configuration False)))
   \<and> \<not> surround_capable
       (loop (exec 256 ([Loop example_env, Loop (example_env\<lparr>e_buffer_data := AL_INVALID_ENUM\<rparr>)]
                        @ [Loop example_env, Loop example_env, Loop example_env])
                (Start example_configuration False)))"
  using capability_downgrade_monotonic
          [of 256 "[Loop example_env, Loop (example_env\<lparr>e_buffer_data := AL_INVALID_ENUM\<rparr>)]"
              "Start example_configuration False"
              "[Loop example_env, Loop example_env, Loop example_env]"]
        example_rejected
        exec_surround [of 256 "[Loop example_env, Loop (example_env\<lparr>e_buffer_data := AL_INVALID_ENUM\<rparr>)]"
              "Start example_configuration False"]
  by (auto simp add: example_state_def [symmetric])

text \<open>
  C7. An iteration that queues a buffer and runs to the end of the body calls
  \<^verbatim>\<open>alSourcePlay\<close> after the queue call exactly when the state the device reports is not
  \<^verbatim>\<open>AL_PLAYING\<close>. This holds whether or not the queue call itself raised an error.
\<close>

theorem resume_iff_not_playing:
  assumes "fst (cycle M e s) = Submitted"
  shows "filter is_queue_or_play (cycle_events M e s) =
           QueueBuffers (nextBuffer s) # (if src_state e \<noteq> AL_PLAYING then [SourcePlay] else [])
         \<and> (SourcePlay \<in> set (cycle_events M e s) \<longleftrightarrow> src_state e \<noteq> AL_PLAYING)"
proof -
  from assms obtain n where n: "renders n e s"
    and d: "(if surround_capable s then 240 else 0) < drained_count M e s"
    and b: "numBuffers s \<noteq> 0"
    by (auto simp: submitted_iff)
  have p: "filter is_queue_or_play (cycle_events M e s) =
           QueueBuffers (nextBuffer s) # (if src_state e \<noteq> AL_PLAYING then [SourcePlay] else [])"
    using d b by (simp add: qp_cycle [OF n])
  have "SourcePlay \<in> set (cycle_events M e s) \<longleftrightarrow>
          SourcePlay \<in> set (filter is_queue_or_play (cycle_events M e s))"
    by simp
  also have "\<dots> \<longleftrightarrow> src_state e \<noteq> AL_PLAYING"
    by (simp only: p) simp
  finally show ?thesis using p by simp
qed

theorem resume_iff_not_playing_witness:
  "fst (cycle 256 example_env example_state) = Submitted
   \<and> filter is_queue_or_play (cycle_events 256 example_env example_state) =
       [QueueBuffers 0, SourcePlay]
   \<and> SourcePlay \<in> set (cycle_events 256 example_env example_state)"
  using resume_iff_not_playing [of 256 example_env example_state]
  by (simp add: cycle_outcome must_wait_def example_timers)



text \<open>
  C3, as the code has it. The test of line 288 is \<^verbatim>\<open>nSamples <= minSamples\<close>, with
  \<^verbatim>\<open>minSamples\<close> 240 in surround mode and 0 in stereo mode. An iteration that reaches
  it skips the write and the queue call when the drained count is zero or below the
  threshold of the mode, and writes and queues one buffer, in the format the capability
  flags select, when the count is above the threshold.
\<close>

theorem threshold_gates_submission:
  assumes "renders n e s"
  shows "(drained_count M e s = 0 \<or> drained_count M e s < (if surround_capable s then 240 else 0)
            \<longrightarrow> fst (cycle M e s) = Skipped
                \<and> filter is_write_or_queue (cycle_events M e s) = [])
         \<and> ((if surround_capable s then 240 else 0) < drained_count M e s
            \<longrightarrow> filter is_write_or_queue (cycle_events M e s) =
                  [BufferData (nextBuffer s) (chosen_format s) (selected_payload M e s),
                   QueueBuffers (nextBuffer s)])"
  using assms by (auto simp add: wq_cycle cycle_outcome renders_def must_wait_def)

theorem threshold_gates_submission_witness:
  "renders 48 example_env example_state
   \<and> (if surround_capable example_state then 240 else 0) < drained_count 256 example_env example_state
   \<and> filter is_write_or_queue (cycle_events 256 example_env example_state) =
        [BufferData 0 AL_FORMAT_STEREO_FLOAT32 (Floats [1 / 2, - 1 / 2]), QueueBuffers 0]
   \<and> renders 48 (example_env\<lparr>received := []\<rparr>) example_state
   \<and> drained_count 256 (example_env\<lparr>received := []\<rparr>) example_state = 0
   \<and> fst (cycle 256 (example_env\<lparr>received := []\<rparr>) example_state) = Skipped
   \<and> filter is_write_or_queue (cycle_events 256 (example_env\<lparr>received := []\<rparr>) example_state) = []"
  using threshold_gates_submission [of 48 example_env example_state 256]
        threshold_gates_submission [of 48 "example_env\<lparr>received := []\<rparr>" example_state 256]
  by (simp add: drained_count_def drain_def chosen_format_def selected_payload_def)

text \<open>
  C3 as stated fails in stereo mode: with nothing drained the count, 0, is not below the
  threshold, 0, and the iteration is skipped all the same.
\<close>

theorem skip_iff_below_threshold_counterexample:
  "fst (cycle 256 (example_env\<lparr>received := []\<rparr>) example_state) = Skipped
   \<and> \<not> surround_capable example_state
   \<and> drained_count 256 (example_env\<lparr>received := []\<rparr>) example_state = 0
   \<and> \<not> (drained_count 256 (example_env\<lparr>received := []\<rparr>) example_state
          < (if surround_capable example_state then 240 else 0))"
  by (simp add: cycle_outcome must_wait_def example_timers drained_count_def drain_def)

text \<open>
  C2, as the code has it. When the tempo multiplier an iteration works with is at most
  0.10 (the second reading, when the first is not positive), the iteration calls neither
  \<^verbatim>\<open>setTempo\<close> nor \<^verbatim>\<open>clear\<close>: its only engine calls are the \<^verbatim>\<open>putSamples\<close> and
  the \<^verbatim>\<open>receiveSamples\<close>, and the engine keeps the tempo it was last given (1.0 from
  the set-up if none was given since).
\<close>

theorem slow_tempo_leaves_engine_alone:
  assumes "effective_rate e \<le> 0.10"
  shows "st_tempo (snd (cycle M e s)) = st_tempo s
         \<and> (\<forall>r. SetTempo r \<notin> set (cycle_events M e s))
         \<and> ClearEngine \<notin> set (cycle_events M e s)
         \<and> (renders n e s \<longrightarrow>
              filter is_engine_call (cycle_events M e s) =
                [PutSamples (pull M n e), ReceiveSamples (M * unat (numBuffers s))])"
proof -
  have t: "st_tempo (snd (cycle M e s)) = st_tempo s"
    using assms by (rule cycle_st_tempo_slow)
  have f: "x \<in> set (cycle_events M e s) \<Longrightarrow> is_engine_call x \<Longrightarrow>
           x \<in> set (filter is_engine_call (cycle_events M e s))" for x
    by simp
  have a: "SetTempo r \<notin> set (cycle_events M e s)" for r
    using f [of "SetTempo r"] engine_cycle_slow [OF assms, of M s]
    by (auto split: option.splits if_splits)
  have b: "ClearEngine \<notin> set (cycle_events M e s)"
    using f [of ClearEngine] engine_cycle_slow [OF assms, of M s]
    by (auto split: option.splits if_splits)
  have c: "renders n e s \<longrightarrow>
              filter is_engine_call (cycle_events M e s) =
                [PutSamples (pull M n e), ReceiveSamples (M * unat (numBuffers s))]"
    using engine_cycle_slow [OF assms, of M s] by (simp add: renders_def)
  from t a b c show ?thesis by simp
qed

theorem slow_tempo_leaves_engine_alone_witness:
  "effective_rate (example_env\<lparr>speed1 := 0, speed2 := 1 / 10\<rparr>) \<le> 0.10
   \<and> renders 48 (example_env\<lparr>speed1 := 0, speed2 := 1 / 10\<rparr>) example_state
   \<and> st_tempo (snd (cycle 256 (example_env\<lparr>speed1 := 0, speed2 := 1 / 10\<rparr>) example_state)) = 1
   \<and> SetTempo (1 / 10) \<notin> set (cycle_events 256 (example_env\<lparr>speed1 := 0, speed2 := 1 / 10\<rparr>) example_state)
   \<and> ClearEngine \<notin> set (cycle_events 256 (example_env\<lparr>speed1 := 0, speed2 := 1 / 10\<rparr>) example_state)
   \<and> filter is_engine_call
        (cycle_events 256 (example_env\<lparr>speed1 := 0, speed2 := 1 / 10\<rparr>) example_state) =
        [PutSamples [1 / 2, - 1 / 2], ReceiveSamples 1024]"
  using slow_tempo_leaves_engine_alone
          [of "example_env\<lparr>speed1 := 0, speed2 := 1 / 10\<rparr>" 256 example_state 48]
  by (simp add: effective_rate_def example_pull)

text \<open>
  C2 as stated fails. An iteration at speed 2 hands tempo 2 to the engine; the next
  iteration reads speed 0.05 and leaves the engine as it is, so the engine drains under
  tempo 2: of the two frames put in, the one frame it returns is what goes to the device.
\<close>

theorem slow_tempo_pass_through_counterexample:
  "effective_rate (example_env\<lparr>speed1 := 1 / 20, mixed := [16384, - 16384, 8192, - 8192]\<rparr>) \<le> 0.10
   \<and> drain 1024 (example_env\<lparr>speed1 := 1 / 20, mixed := [16384, - 16384, 8192, - 8192]\<rparr>)
       \<noteq> pull 256 48 (example_env\<lparr>speed1 := 1 / 20, mixed := [16384, - 16384, 8192, - 8192]\<rparr>)
   \<and> st_tempo (snd (cycle 256 (example_env\<lparr>speed1 := 2\<rparr>) example_state)) = 2
   \<and> filter is_engine_call
        (cycle_events 256 (example_env\<lparr>speed1 := 1 / 20, mixed := [16384, - 16384, 8192, - 8192]\<rparr>)
           (snd (cycle 256 (example_env\<lparr>speed1 := 2\<rparr>) example_state))) =
        [PutSamples [1 / 2, - 1 / 2, 1 / 4, - 1 / 4], ReceiveSamples 1024]
   \<and> filter is_write_or_queue
        (cycle_events 256 (example_env\<lparr>speed1 := 1 / 20, mixed := [16384, - 16384, 8192, - 8192]\<rparr>)
           (snd (cycle 256 (example_env\<lparr>speed1 := 2\<rparr>) example_state))) =
        [BufferData 1 AL_FORMAT_STEREO_FLOAT32 (Floats [1 / 2, - 1 / 2]), QueueBuffers 1]
   \<and> st_tempo
        (snd (cycle 256 (example_env\<lparr>speed1 := 1 / 20, mixed := [16384, - 16384, 8192, - 8192]\<rparr>)
           (snd (cycle 256 (example_env\<lparr>speed1 := 2\<rparr>) example_state)))) = 2"
proof -
  let ?e1 = "example_env\<lparr>speed1 := 2\<rparr>"
  let ?e2 = "example_env\<lparr>speed1 := 1 / 20, mixed := [16384, - 16384, 8192, - 8192]\<rparr>"
  let ?s1 = "snd (cycle 256 ?e1 example_state)"
  have r1: "renders 48 ?e1 example_state" by simp
  have d1: "(if surround_capable example_state then 240 else 0) < drained_count 256 ?e1 example_state"
    by simp
  have q: "numBuffersQueued ?s1 = 1" "nextBuffer ?s1 = 1"
    using cycle_counters [OF r1 d1] by simp_all
  have fl: "\<not> surround_capable ?s1" "float32_capable ?s1"
    using cycle_flags [OF r1 d1] by (simp_all add: reclaim_al_error)
  have t1: "st_tempo ?s1 = 2"
    by (simp add: cycle_st_tempo [OF r1] effective_rate_def)
  have r2: "renders 48 ?e2 ?s1"
    by (simp add: renders_def must_wait_def q example_timers)
  have d2: "drained_count 256 ?e2 ?s1 = 1"
    by (simp add: drained_count_def drain_def)
  have rate: "effective_rate ?e2 \<le> 0.10"
    by (simp add: effective_rate_def)
  have p2: "pull 256 48 ?e2 = [1 / 2, - 1 / 2, 1 / 4, - 1 / 4]"
    by (simp add: pull_def mixer_frames_def mix_request_def short_to_float_def)
  have e2: "filter is_engine_call (cycle_events 256 ?e2 ?s1) =
              [PutSamples [1 / 2, - 1 / 2, 1 / 4, - 1 / 4], ReceiveSamples 1024]"
    using rate by (simp add: engine_cycle [OF r2] p2)
  have w2: "filter is_write_or_queue (cycle_events 256 ?e2 ?s1) =
        [BufferData 1 AL_FORMAT_STEREO_FLOAT32 (Floats [1 / 2, - 1 / 2]), QueueBuffers 1]"
    using fl by (simp add: wq_cycle [OF r2] d2 q chosen_format_def selected_payload_def drain_def)
  have t2: "st_tempo (snd (cycle 256 ?e2 ?s1)) = 2"
    using rate by (simp add: cycle_st_tempo [OF r2] t1)
  have ne: "drain 1024 ?e2 \<noteq> pull 256 48 ?e2"
    by (simp add: p2 drain_def)
  from rate ne t1 e2 w2 t2 show ?thesis by simp
qed

text \<open>
  C10, as the code has it. On the stereo 16-bit path no error check follows the buffer
  write and the queue call comes next, whatever the write did; a rejected write changes
  neither capability flag. The check after the queue call reads the AL error flag, which
  holds the first error since the last \<^verbatim>\<open>alGetError\<close>. When no error is pending before
  the write, the error of a rejected write is what that check reads, and it is logged
  under the description "queuing buffers". When an error is pending before the write
  (raised by the unchecked query of line 228, or left from before the iteration and not
  cleared by a reclaim), the check logs that earlier error instead, and the error of the
  write is lost.
\<close>

theorem stereo16_rejection_logged_after_queue:
  assumes "fst (cycle M e s) = Submitted"
      and "\<not> surround_capable s" and "\<not> float32_capable s"
  shows "filter is_write_queue_or_log (cycle_events M e s) =
           (if processed e \<noteq> 0
            then error_log ''unqueuing buffers''
                   (first_error (first_error (al_error s) (e_get_processed e)) (e_unqueue e))
            else []) @
           [BufferData (nextBuffer s) AL_FORMAT_STEREO16 (selected_payload M e s),
            QueueBuffers (nextBuffer s)] @
           error_log ''queuing buffers''
             (first_error (first_error (pending_before_write e s) (e_buffer_data e)) (e_queue e)) @
           (if src_state e \<noteq> AL_PLAYING
            then error_log ''occurred resuming playback'' (first_error (e_get_state e) (e_play e))
            else [])
         \<and> pending_before_write e s =
             (if processed e \<noteq> 0 then AL_NO_ERROR
              else first_error (al_error s) (e_get_processed e))
         \<and> \<not> surround_capable (snd (cycle M e s))
         \<and> \<not> float32_capable (snd (cycle M e s))
         \<and> (e_buffer_data e \<noteq> AL_NO_ERROR \<and> pending_before_write e s = AL_NO_ERROR \<longrightarrow>
               ErrorLog ''queuing buffers'' (e_buffer_data e) (al_error_name (e_buffer_data e))
                 \<in> set (cycle_events M e s))
         \<and> (pending_before_write e s \<noteq> AL_NO_ERROR \<longrightarrow>
               ErrorLog ''queuing buffers'' (pending_before_write e s)
                   (al_error_name (pending_before_write e s))
                 \<in> set (cycle_events M e s)
               \<and> (e_buffer_data e \<noteq> pending_before_write e s \<longrightarrow>
                    ErrorLog ''queuing buffers'' (e_buffer_data e)
                        (al_error_name (e_buffer_data e))
                      \<notin> set (cycle_events M e s)))"
proof -
  from assms(1) obtain n where n: "renders n e s"
    and d: "(if surround_capable s then 240 else 0) < drained_count M e s"
    and b: "numBuffers s \<noteq> 0"
    by (auto simp: submitted_iff)
  from d assms(2) have d0: "0 < drained_count M e s" by simp
  let ?L = "filter is_write_queue_or_log (cycle_events M e s)"
  have l: "?L =
           (if processed e \<noteq> 0
            then error_log ''unqueuing buffers''
                   (first_error (first_error (al_error s) (e_get_processed e)) (e_unqueue e))
            else []) @
           [BufferData (nextBuffer s) AL_FORMAT_STEREO16 (selected_payload M e s),
            QueueBuffers (nextBuffer s)] @
           error_log ''queuing buffers''
             (first_error (first_error (pending_before_write e s) (e_buffer_data e)) (e_queue e)) @
           (if src_state e \<noteq> AL_PLAYING
            then error_log ''occurred resuming playback'' (first_error (e_get_state e) (e_play e))
            else [])"
    using b by (simp add: wql_cycle_stereo16_any [OF n d0 assms(2,3)])
  have f: "\<not> surround_capable (snd (cycle M e s))" "\<not> float32_capable (snd (cycle M e s))"
    using cycle_surround [of M e s] cycle_float32 [of M e s] assms(2,3) by auto
  have m: "ErrorLog d x nm \<in> set (cycle_events M e s) \<longleftrightarrow> ErrorLog d x nm \<in> set ?L"
    for d x nm by simp
  have w: "e_buffer_data e \<noteq> AL_NO_ERROR \<and> pending_before_write e s = AL_NO_ERROR \<longrightarrow>
               ErrorLog ''queuing buffers'' (e_buffer_data e) (al_error_name (e_buffer_data e))
                 \<in> set (cycle_events M e s)"
    unfolding m l by (simp add: error_log_def first_error_def)
  have p: "pending_before_write e s \<noteq> AL_NO_ERROR \<longrightarrow>
               ErrorLog ''queuing buffers'' (pending_before_write e s)
                   (al_error_name (pending_before_write e s))
                 \<in> set (cycle_events M e s)
               \<and> (e_buffer_data e \<noteq> pending_before_write e s \<longrightarrow>
                    ErrorLog ''queuing buffers'' (e_buffer_data e)
                        (al_error_name (e_buffer_data e))
                      \<notin> set (cycle_events M e s))"
    unfolding m l by (simp add: error_log_def first_error_def)
  from l f w p pending_before_write_eq [of e s] show ?thesis by simp
qed

theorem stereo16_rejection_logged_after_queue_witness:
  "fst (cycle 256 (example_env\<lparr>e_buffer_data := AL_INVALID_ENUM, src_state := AL_PLAYING\<rparr>)
              (example_state\<lparr>float32_capable := False\<rparr>)) = Submitted
   \<and> \<not> surround_capable (example_state\<lparr>float32_capable := False\<rparr>)
   \<and> \<not> float32_capable (example_state\<lparr>float32_capable := False\<rparr>)
   \<and> pending_before_write
        (example_env\<lparr>e_buffer_data := AL_INVALID_ENUM, src_state := AL_PLAYING\<rparr>)
        (example_state\<lparr>float32_capable := False\<rparr>) = AL_NO_ERROR
   \<and> filter is_write_queue_or_log
        (cycle_events 256 (example_env\<lparr>e_buffer_data := AL_INVALID_ENUM, src_state := AL_PLAYING\<rparr>)
           (example_state\<lparr>float32_capable := False\<rparr>)) =
        [BufferData 0 AL_FORMAT_STEREO16 (Shorts [Some 16384, Some (- 16384)]),
         QueueBuffers 0,
         ErrorLog ''queuing buffers'' AL_INVALID_ENUM ''AL_INVALID_ENUM'']
   \<and> ErrorLog ''queuing buffers'' AL_INVALID_ENUM ''AL_INVALID_ENUM''
       \<in> set (cycle_events 256
                (example_env\<lparr>e_buffer_data := AL_INVALID_ENUM, src_state := AL_PLAYING\<rparr>)
                (example_state\<lparr>float32_capable := False\<rparr>))
   \<and> \<not> float32_capable
         (snd (cycle 256 (example_env\<lparr>e_buffer_data := AL_INVALID_ENUM, src_state := AL_PLAYING\<rparr>)
                 (example_state\<lparr>float32_capable := False\<rparr>)))
   \<and> fst (cycle 256 (example_env\<lparr>e_get_processed := AL_INVALID_NAME,
                                   e_buffer_data := AL_INVALID_ENUM, src_state := AL_PLAYING\<rparr>)
              (example_state\<lparr>float32_capable := False\<rparr>)) = Submitted
   \<and> pending_before_write
        (example_env\<lparr>e_get_processed := AL_INVALID_NAME,
                     e_buffer_data := AL_INVALID_ENUM, src_state := AL_PLAYING\<rparr>)
        (example_state\<lparr>float32_capable := False\<rparr>) = AL_INVALID_NAME
   \<and> filter is_write_queue_or_log
        (cycle_events 256 (example_env\<lparr>e_get_processed := AL_INVALID_NAME,
                                       e_buffer_data := AL_INVALID_ENUM, src_state := AL_PLAYING\<rparr>)
           (example_state\<lparr>float32_capable := False\<rparr>)) =
        [BufferData 0 AL_FORMAT_STEREO16 (Shorts [Some 16384, Some (- 16384)]),
         QueueBuffers 0,
         ErrorLog ''queuing buffers'' AL_INVALID_NAME ''AL_INVALID_NAME'']
   \<and> ErrorLog ''queuing buffers'' AL_INVALID_ENUM ''AL_INVALID_ENUM''
       \<notin> set (cycle_events 256
                (example_env\<lparr>e_get_processed := AL_INVALID_NAME,
                             e_buffer_data := AL_INVALID_ENUM, src_state := AL_PLAYING\<rparr>)
                (example_state\<lparr>float32_capable := False\<rparr>))"
proof -
  let ?s = "example_state\<lparr>float32_capable := False\<rparr>"
  let ?e1 = "example_env\<lparr>e_buffer_data := AL_INVALID_ENUM, src_state := AL_PLAYING\<rparr>"
  let ?e2 = "example_env\<lparr>e_get_processed := AL_INVALID_NAME,
                          e_buffer_data := AL_INVALID_ENUM, src_state := AL_PLAYING\<rparr>"
  have s1: "fst (cycle 256 ?e1 ?s) = Submitted"
    by (simp add: cycle_outcome must_wait_def example_timers drained_count_def drain_def)
  have s2: "fst (cycle 256 ?e2 ?s) = Submitted"
    by (simp add: cycle_outcome must_wait_def example_timers drained_count_def drain_def)
  have f: "\<not> surround_capable ?s" "\<not> float32_capable ?s" by simp_all
  have p: "selected_payload 256 ?e1 ?s = Shorts [Some 16384, Some (- 16384)]"
    "selected_payload 256 ?e2 ?s = Shorts [Some 16384, Some (- 16384)]"
    by (simp_all add: selected_payload_def drain_def float_to_short_def truncate_real_def)
  note i1 = stereo16_rejection_logged_after_queue [OF s1 f]
  note i2 = stereo16_rejection_logged_after_queue [OF s2 f]
  have a1: "pending_before_write ?e1 ?s = AL_NO_ERROR"
    using i1 by (simp add: first_error_def)
  have a2: "pending_before_write ?e2 ?s = AL_INVALID_NAME"
    using i2 by (simp add: first_error_def)
  from i1 i2 s1 s2 show ?thesis
    by (simp add: a1 a2 p first_error_def error_log_def)
qed

text \<open>
  C10 as stated fails: on the stereo 16-bit path a rejected write does reach the log, in
  the very iteration, through the check that follows the queue call.
\<close>

theorem stereo16_rejection_never_logged_counterexample:
  "\<not> surround_capable (example_state\<lparr>float32_capable := False\<rparr>)
   \<and> \<not> float32_capable (example_state\<lparr>float32_capable := False\<rparr>)
   \<and> e_queue (example_env\<lparr>e_buffer_data := AL_INVALID_ENUM\<rparr>) = AL_NO_ERROR
   \<and> filter is_write_queue_or_log
        (cycle_events 256 (example_env\<lparr>e_buffer_data := AL_INVALID_ENUM\<rparr>)
           (example_state\<lparr>float32_capable := False\<rparr>)) =
        [BufferData 0 AL_FORMAT_STEREO16 (Shorts [Some 16384, Some (- 16384)]),
         QueueBuffers 0,
         ErrorLog ''queuing buffers'' AL_INVALID_ENUM ''AL_INVALID_ENUM'']"
proof -
  let ?e = "example_env\<lparr>e_buffer_data := AL_INVALID_ENUM\<rparr>"
  let ?s = "example_state\<lparr>float32_capable := False\<rparr>"
  have r: "renders 48 ?e ?s"
    by (simp add: renders_def must_wait_def example_timers)
  have d: "0 < drained_count 256 ?e ?s"
    by (simp add: drained_count_def drain_def)
  show ?thesis
    using wql_cycle_stereo16 [OF r d]
    by (simp add: error_log_def selected_payload_def drain_def float_to_short_def
        truncate_real_def)
qed





text \<open>
  C6, as the code has it. Let the device never report more processed buffers than the
  loop has queued. Then, from \<^verbatim>\<open>Start\<close> on and along any schedule, the count of
  outstanding slots never exceeds \<^verbatim>\<open>numBuffers\<close>, which stays the configured latency plus
  two: not between iterations, where it is the value of \<^verbatim>\<open>numBuffersQueued\<close>, and not
  between the calls of an iteration either. This holds for every depth, so for every depth
  of at least two. An iteration that submits first takes the reported slots off, with the
  unqueue call, and only then queues; and it queues only when line 229 lets it pass: when
  the count is below the depth, or when the device reported a processed buffer.
\<close>

theorem queued_never_exceeds_depth:
  assumes "reports_consistent M acts (Start c ev)"
  shows "(\<forall>x \<in> set (count_history 0 (trace (loop (exec M acts (Start c ev))))).
            x \<le> numBuffers (loop (exec M acts (Start c ev))))
         \<and> numBuffersQueued (loop (exec M acts (Start c ev))) =
             last (count_history 0 (trace (loop (exec M acts (Start c ev)))))
         \<and> numBuffers (loop (exec M acts (Start c ev))) = word_of_int (iLatency c + 2)
         \<and> (fst (cycle M e s) = Submitted \<longrightarrow>
               filter is_unqueue_or_queue (cycle_events M e s) =
                 (if processed e \<noteq> 0 then [UnqueueBuffers (processed e)] else [])
                 @ [QueueBuffers (nextBuffer s)])
         \<and> (numBuffersQueued s \<le> numBuffers s \<and> QueueBuffers b \<in> set (cycle_events M e s)
               \<longrightarrow> numBuffersQueued s < numBuffers s \<or> processed e \<noteq> 0)"
proof -
  let ?sys = "Start c ev"
  have i: "\<forall>x \<in> set (count_history 0 (trace (loop ?sys))). x \<le> numBuffers (loop ?sys)"
    by (simp add: init_counted)
  have q: "numBuffersQueued (loop ?sys) = last (count_history 0 (trace (loop ?sys)))"
    by (simp add: init_counted)
  note a = exec_counted [OF i q assms]
  have n: "numBuffers (loop (exec M acts ?sys)) = word_of_int (iLatency c + 2)"
    by simp
  have o: "fst (cycle M e s) = Submitted \<longrightarrow>
               filter is_unqueue_or_queue (cycle_events M e s) =
                 (if processed e \<noteq> 0 then [UnqueueBuffers (processed e)] else [])
                 @ [QueueBuffers (nextBuffer s)]"
    by (auto simp add: uq_cycle cycle_outcome must_wait_def split: if_splits)
  have r: "numBuffersQueued s \<le> numBuffers s \<and> QueueBuffers b \<in> set (cycle_events M e s)
               \<longrightarrow> numBuffersQueued s < numBuffers s \<or> processed e \<noteq> 0"
    using queue_needs_room [of b M e s] by (auto simp: must_wait_def)
  from a n o r show ?thesis by simp
qed


theorem queued_never_exceeds_depth_witness:
  "reports_consistent 256
     [Loop example_env, Loop example_env, Loop example_env,
      Loop (example_env\<lparr>processed := 1\<rparr>)]
     (Start example_configuration False)
   \<and> numBuffersQueued
        (loop (exec 256 [Loop example_env, Loop example_env, Loop example_env,
                         Loop (example_env\<lparr>processed := 1\<rparr>)]
                 (Start example_configuration False)))
       \<le> 4
   \<and> numBuffers
        (loop (exec 256 [Loop example_env, Loop example_env, Loop example_env,
                         Loop (example_env\<lparr>processed := 1\<rparr>)]
                 (Start example_configuration False))) = 4
   \<and> fst (cycle 256 (example_env\<lparr>processed := 1\<rparr>)
              (snd (cycle 256 example_env example_state))) = Submitted
   \<and> filter is_unqueue_or_queue
        (cycle_events 256 (example_env\<lparr>processed := 1\<rparr>)
           (snd (cycle 256 example_env example_state))) =
        [UnqueueBuffers 1, QueueBuffers 1]
   \<and> numBuffersQueued example_state \<le> numBuffers example_state
   \<and> QueueBuffers 0 \<in> set (cycle_events 256 example_env example_state)
   \<and> numBuffersQueued example_state < numBuffers example_state"
proof -
  let ?acts = "[Loop example_env, Loop example_env, Loop example_env,
                Loop (example_env\<lparr>processed := 1\<rparr>)]"
  let ?sys = "Start example_configuration False"
  let ?e1 = "example_env\<lparr>processed := 1\<rparr>"
  let ?s1 = "snd (cycle 256 example_env example_state)"
  have h: "reports_consistent 256 ?acts ?sys"
    by (simp add: example_state_def [symmetric] loop_step_InBody example_first_iteration)
  have r: "renders 48 example_env example_state" by simp
  have d: "(if surround_capable example_state then 240 else 0)
             < drained_count 256 example_env example_state" by simp
  have s1: "numBuffersQueued ?s1 = 1" "nextBuffer ?s1 = 1" "\<not> surround_capable ?s1"
    using cycle_counters [OF r d] cycle_surround [of 256 example_env example_state]
    by auto
  have sub: "fst (cycle 256 ?e1 ?s1) = Submitted"
    using s1 by (simp add: cycle_outcome must_wait_def example_timers drained_count_def drain_def)
  have q: "QueueBuffers 0 \<in> set (filter is_queue_or_play (cycle_events 256 example_env example_state))"
    by (simp add: qp_cycle [where n = 48])
  have q': "QueueBuffers 0 \<in> set (cycle_events 256 example_env example_state)"
    using q by simp
  note inst = queued_never_exceeds_depth [OF h, where e = ?e1 and s = ?s1 and b = 0]
  have "last (count_history 0 (trace (loop (exec 256 ?acts ?sys))))
          \<in> set (count_history 0 (trace (loop (exec 256 ?acts ?sys))))"
    by (rule last_in_set) simp
  with inst have b: "numBuffersQueued (loop (exec 256 ?acts ?sys)) \<le> 4"
    by (auto simp add: example_configuration_def)
  have n: "numBuffers (loop (exec 256 ?acts ?sys)) = 4"
    using inst by (simp add: example_configuration_def)
  have o: "filter is_unqueue_or_queue (cycle_events 256 ?e1 ?s1) =
             [UnqueueBuffers 1, QueueBuffers 1]"
    using inst sub s1 by simp
  from h b n sub o q'
       queued_never_exceeds_depth [OF h, where e = example_env and s = example_state and b = 0]
  show ?thesis by simp
qed

text \<open>
  C6 as stated fails for a device that reports more than is queued: the subtraction of
  line 242 is unsigned, and two buffers reported while none is queued leave the count at
  4294967295 with four buffers.
\<close>

theorem queued_exceeds_depth_counterexample:
  "numBuffers (loop (Start example_configuration False)) = 4
   \<and> numBuffersQueued (loop (Start example_configuration False)) = 0
   \<and> unat (numBuffersQueued
        (loop (exec 256 [Loop example_env, Loop (example_env\<lparr>processed := 2\<rparr>)]
                 (Start example_configuration False)))) = 4294967295
   \<and> \<not> numBuffersQueued
        (loop (exec 256 [Loop example_env, Loop (example_env\<lparr>processed := 2\<rparr>)]
                 (Start example_configuration False)))
       \<le> numBuffers
        (loop (exec 256 [Loop example_env, Loop (example_env\<lparr>processed := 2\<rparr>)]
                 (Start example_configuration False)))"
proof -
  let ?e = "example_env\<lparr>processed := 2\<rparr>"
  have r: "renders 48 ?e example_state"
    by (simp add: renders_def must_wait_def example_timers)
  have d: "(if surround_capable example_state then 240 else 0)
             < drained_count 256 ?e example_state" by simp
  have w: "(0 :: u32) - 2 + 1 = 4294967295" by simp
  have p: "processed ?e = 2" by simp
  have c: "numBuffersQueued (snd (cycle 256 ?e example_state)) = 4294967295"
    using cycle_counters(1) [OF r d] unfolding p example_state_fields w .
  have x: "loop (exec 256 [Loop example_env, Loop ?e] (Start example_configuration False))
             = snd (cycle 256 ?e example_state)"
    by (simp add: exec_Cons exec_Nil loop_step_InBody example_state_def [symmetric])
  show ?thesis
    unfolding x
    by (simp add: c example_state_def [symmetric] word_le_nat_alt)
qed

text \<open>
  C8. The audio thread reaches \<^verbatim>\<open>soundSyncEvent.Wait()\<close> from the body exactly when the
  queued count equals the number of buffers and the device reports no processed buffer.
  A wait returns only when a wake is stored, and the thread then stands at the test of the
  run flag again, having done nothing else; with the flag clear it returns from there.
  So a thread blocked in the wait leaves the loop on \<^verbatim>\<open>Stop\<close>'s two signals without
  touching the device again, and wherever the thread stands and however the other threads'
  signals fall in between, once the run flag has been cleared and the event set after it,
  three moves of the thread at most bring it out of the loop (out through the
  \<^verbatim>\<open>return\<close>, unless the one iteration it may still run divides by zero).
\<close>

theorem wait_only_without_room_and_stop_exits:
  "(pc sys1 = InBody \<longrightarrow>
      (pc (step M (Loop e) sys1) = AtWait
         \<longleftrightarrow> numBuffersQueued (loop sys1) = numBuffers (loop sys1) \<and> processed e = 0))
   \<and> (pc sys2 = AtWait \<longrightarrow>
        step M (Loop e) sys2 =
          (if sync_event sys2 then sys2\<lparr>sync_event := False, pc := AtHead\<rparr> else sys2))
   \<and> (pc sys3 = AtHead \<longrightarrow>
        step M (Loop e) sys3 =
          (if run_thread sys3 then sys3\<lparr>pc := InBody\<rparr> else sys3\<lparr>pc := Returned\<rparr>))
   \<and> (pc sys2 = AtWait \<longrightarrow>
        exec M [ClearRunFlag, SetSyncEvent, Loop e1, Loop e2] sys2 =
          sys2\<lparr>run_thread := False, sync_event := False, pc := Returned\<rparr>)
   \<and> (3 \<le> length (filter is_loop post) \<longrightarrow>
        pc (exec M (pre @ ClearRunFlag # mid @ SetSyncEvent # post) sys) = Returned
        \<or> pc (exec M (pre @ ClearRunFlag # mid @ SetSyncEvent # post) sys) = Aborted)
   \<and> (3 \<le> length (filter is_loop post) \<and> pc sys \<noteq> Aborted \<and> numBuffers (loop sys) \<noteq> 0
        \<and> (\<forall>a \<in> set (pre @ mid @ post). timers_nonzero a) \<longrightarrow>
        pc (exec M (pre @ ClearRunFlag # mid @ SetSyncEvent # post) sys) = Returned)"
proof -
  have a: "pc sys1 = InBody \<longrightarrow>
      (pc (step M (Loop e) sys1) = AtWait
         \<longleftrightarrow> numBuffersQueued (loop sys1) = numBuffers (loop sys1) \<and> processed e = 0)"
    using body_to_wait [of sys1 M e] by (auto simp: must_wait_def)
  have b: "pc sys2 = AtWait \<longrightarrow>
        step M (Loop e) sys2 =
          (if sync_event sys2 then sys2\<lparr>sync_event := False, pc := AtHead\<rparr> else sys2)"
    by (simp add: event_wait_def)
  have c: "pc sys3 = AtHead \<longrightarrow>
        step M (Loop e) sys3 =
          (if run_thread sys3 then sys3\<lparr>pc := InBody\<rparr> else sys3\<lparr>pc := Returned\<rparr>)"
    by simp
  have d: "pc sys2 = AtWait \<longrightarrow>
        exec M [ClearRunFlag, SetSyncEvent, Loop e1, Loop e2] sys2 =
          sys2\<lparr>run_thread := False, sync_event := False, pc := Returned\<rparr>"
    by (simp add: exec_Cons exec_Nil event_wait_def)
  have f: "3 \<le> length (filter is_loop post) \<longrightarrow>
        pc (exec M (pre @ ClearRunFlag # mid @ SetSyncEvent # post) sys) = Returned
        \<or> pc (exec M (pre @ ClearRunFlag # mid @ SetSyncEvent # post) sys) = Aborted"
    using stop_then_exit [of post M pre mid sys] by blast
  have g: "3 \<le> length (filter is_loop post) \<and> pc sys \<noteq> Aborted \<and> numBuffers (loop sys) \<noteq> 0
        \<and> (\<forall>a \<in> set (pre @ mid @ post). timers_nonzero a) \<longrightarrow>
        pc (exec M (pre @ ClearRunFlag # mid @ SetSyncEvent # post) sys) = Returned"
  proof
    assume h: "3 \<le> length (filter is_loop post) \<and> pc sys \<noteq> Aborted \<and> numBuffers (loop sys) \<noteq> 0
        \<and> (\<forall>a \<in> set (pre @ mid @ post). timers_nonzero a)"
    then have "\<forall>a \<in> set (pre @ ClearRunFlag # mid @ SetSyncEvent # post). timers_nonzero a"
      by auto
    with h have "pc (exec M (pre @ ClearRunFlag # mid @ SetSyncEvent # post) sys) \<noteq> Aborted"
      by (intro exec_not_aborted) simp_all
    with f h show "pc (exec M (pre @ ClearRunFlag # mid @ SetSyncEvent # post) sys) = Returned"
      by blast
  qed
  from a b c d f g show ?thesis by blast
qed


theorem wait_only_without_room_and_stop_exits_witness:
  "pc \<lparr>loop = example_state\<lparr>numBuffersQueued := 4\<rparr>, pc = InBody,
       run_thread = True, sync_event = False\<rparr> = InBody
   \<and> numBuffersQueued (example_state\<lparr>numBuffersQueued := 4\<rparr>)
       = numBuffers (example_state\<lparr>numBuffersQueued := 4\<rparr>)
   \<and> processed example_env = 0
   \<and> pc (step 256 (Loop example_env)
            \<lparr>loop = example_state\<lparr>numBuffersQueued := 4\<rparr>, pc = InBody,
             run_thread = True, sync_event = False\<rparr>) = AtWait
   \<and> step 256 (Loop example_env)
         \<lparr>loop = example_state\<lparr>numBuffersQueued := 4\<rparr>, pc = AtWait,
          run_thread = True, sync_event = False\<rparr>
       = \<lparr>loop = example_state\<lparr>numBuffersQueued := 4\<rparr>, pc = AtWait,
          run_thread = True, sync_event = False\<rparr>
   \<and> step 256 (Loop example_env) (Start example_configuration False)
       = (Start example_configuration False)\<lparr>pc := InBody\<rparr>
   \<and> exec 256 [ClearRunFlag, SetSyncEvent, Loop example_env, Loop example_env]
         \<lparr>loop = example_state\<lparr>numBuffersQueued := 4\<rparr>, pc = AtWait,
          run_thread = True, sync_event = False\<rparr>
       = \<lparr>loop = example_state\<lparr>numBuffersQueued := 4\<rparr>, pc = Returned,
          run_thread = False, sync_event = False\<rparr>
   \<and> 3 \<le> length (filter is_loop [Loop example_env, Loop example_env, Loop example_env])
   \<and> pc (Start example_configuration False) \<noteq> Aborted
   \<and> numBuffers (loop (Start example_configuration False)) \<noteq> 0
   \<and> timers_nonzero (Loop example_env)
   \<and> pc (exec 256 ([Loop example_env, Loop example_env] @ ClearRunFlag # [Loop example_env]
                     @ SetSyncEvent # [Loop example_env, Loop example_env, Loop example_env])
            (Start example_configuration False)) = Returned"
  using wait_only_without_room_and_stop_exits
          [of "\<lparr>loop = example_state\<lparr>numBuffersQueued := 4\<rparr>, pc = InBody,
                run_thread = True, sync_event = False\<rparr>"
              256 example_env
              "\<lparr>loop = example_state\<lparr>numBuffersQueued := 4\<rparr>, pc = AtWait,
                run_thread = True, sync_event = False\<rparr>"
              "Start example_configuration False"
              example_env example_env
              "[Loop example_env, Loop example_env, Loop example_env]"
              "[Loop example_env, Loop example_env]"
              "[Loop example_env]"
              "Start example_configuration False"]
  by (simp add: example_state_def [symmetric] example_timers)

end
